theory Spec2Isabelle
  imports Complex_Main "HOL-Library.Char_ord" "HOL-Library.List_Lexorder"
begin

section \<open>Strings of the extractor\<close>

text \<open>
  The extractor (\<^verbatim>\<open>extrair_matriz.py\<close>) works on Python \<^verbatim>\<open>str\<close> values, which are
  sequences of Unicode code points. A code point is a natural number here and a string
  is a list of them, so that the em dash (U+2014) and the en dash (U+2013) of
  \<^verbatim>\<open>EMPTY_TOKENS\<close> are single characters, as they are in Python. \<open>u\<close> turns an
  ASCII literal into such a string.
\<close>

type_synonym ustring = "nat list"

definition u :: "string \<Rightarrow> ustring" where
  "u s = map of_char s"

text \<open>
  \<^verbatim>\<open>str.isspace\<close>, which is also what \<^verbatim>\<open>\s\<close> matches in a \<^verbatim>\<open>str\<close> pattern and
  what \<^verbatim>\<open>str.strip()\<close> removes: the white space code points of the Unicode
  database that CPython tabulates.
\<close>

definition isspace :: "nat \<Rightarrow> bool" where
  "isspace c \<longleftrightarrow>
     (9 \<le> c \<and> c \<le> 13) \<or> (28 \<le> c \<and> c \<le> 32) \<or> c = 133 \<or> c = 160 \<or> c = 5760 \<or>
     (8192 \<le> c \<and> c \<le> 8202) \<or> c = 8232 \<or> c = 8233 \<or> c = 8239 \<or> c = 8287 \<or>
     c = 12288"

text \<open>\<^verbatim>\<open>s.replace(a, b)\<close> for one-character \<open>a\<close> and \<open>b\<close>.\<close>

definition replace_char :: "nat \<Rightarrow> nat \<Rightarrow> ustring \<Rightarrow> ustring" where
  "replace_char a b s = map (\<lambda>c. if c = a then b else c) s"

text \<open>
  \<^verbatim>\<open>re.sub(r"\s+", " ", s)\<close>: every maximal run of white space becomes one space
  (code point 32).
\<close>

function collapse_ws :: "ustring \<Rightarrow> ustring" where
  "collapse_ws [] = []"
| "collapse_ws (c # cs) =
     (if isspace c then 32 # collapse_ws (dropWhile isspace cs) else c # collapse_ws cs)"
  by pat_completeness auto
termination
  by (relation "measure length") (auto simp: le_imp_less_Suc length_dropWhile_le)

text \<open>\<^verbatim>\<open>s.strip()\<close>: white space removed at both ends.\<close>

definition strip :: "ustring \<Rightarrow> ustring" where
  "strip s = rev (dropWhile isspace (rev (dropWhile isspace s)))"

text \<open>
  \<^verbatim>\<open>s.lower()\<close>, as far as the extractor depends on it. Its two uses are the tests
  \<^verbatim>\<open>s.lower() in EMPTY_TOKENS\<close> and \<^verbatim>\<open>f.suffix.lower() == ".xls"\<close>. The tokens and
  the suffix are made of the characters \<^verbatim>\<open>- / . a e l n o s u x\<close> and the two dashes;
  the only code points that Python's lower-casing sends to one of these are the capitals
  \<^verbatim>\<open>A E L N O S U X\<close>, so lower-casing the letters \<^verbatim>\<open>A\<close> to \<^verbatim>\<open>Z\<close> decides both
  tests as Python does.
\<close>

definition lower_cp :: "nat \<Rightarrow> nat" where
  "lower_cp c = (if 65 \<le> c \<and> c \<le> 90 then c + 32 else c)"

definition lower :: "ustring \<Rightarrow> ustring" where
  "lower s = map lower_cp s"

text \<open>
  \<^verbatim>\<open>s.upper()\<close>: each character is replaced by its upper case, which for some
  characters is two or three characters long. The mapping is the one of the Unicode
  Character Database 14.0.0, which CPython 3.11 carries. \<open>UPPER_RANGES\<close> lists the
  characters whose upper case is one character: \<open>(lo, hi, step, target)\<close> stands
  for the characters \<open>lo\<close>, \<open>lo + step\<close>, ... up to \<open>hi\<close>, sent to \<open>target\<close>,
  \<open>target + step\<close>, ... in this order. \<open>UPPER_SPECIAL\<close> lists the characters whose
  upper case is longer. Every other character is its own upper case. Below U+00B5 the
  only characters of the tables are the letters \<^verbatim>\<open>a\<close> to \<^verbatim>\<open>z\<close>, which \<open>upper_cp\<close>
  handles first.
\<close>

definition UPPER_RANGES :: "(nat \<times> nat \<times> nat \<times> nat) list" where
  "UPPER_RANGES =
     [
      (97, 122, 1, 65), (181, 181, 1, 924), (224, 246, 1, 192), (248, 254, 1, 216),
      (255, 255, 1, 376), (257, 303, 2, 256), (305, 305, 1, 73), (307, 311, 2, 306),
      (314, 328, 2, 313), (331, 375, 2, 330), (378, 382, 2, 377), (383, 383, 1, 83),
      (384, 384, 1, 579), (387, 389, 2, 386), (392, 392, 1, 391), (396, 396, 1, 395),
      (402, 402, 1, 401), (405, 405, 1, 502), (409, 409, 1, 408), (410, 410, 1, 573),
      (414, 414, 1, 544), (417, 421, 2, 416), (424, 424, 1, 423), (429, 429, 1, 428),
      (432, 432, 1, 431), (436, 438, 2, 435), (441, 441, 1, 440), (445, 445, 1, 444),
      (447, 447, 1, 503), (453, 453, 1, 452), (454, 454, 1, 452), (456, 456, 1, 455),
      (457, 457, 1, 455), (459, 459, 1, 458), (460, 460, 1, 458), (462, 476, 2, 461),
      (477, 477, 1, 398), (479, 495, 2, 478), (498, 498, 1, 497), (499, 499, 1, 497),
      (501, 501, 1, 500), (505, 543, 2, 504), (547, 563, 2, 546), (572, 572, 1, 571),
      (575, 576, 1, 11390), (578, 578, 1, 577), (583, 591, 2, 582), (592, 592, 1, 11375),
      (593, 593, 1, 11373), (594, 594, 1, 11376), (595, 595, 1, 385), (596, 596, 1, 390),
      (598, 599, 1, 393), (601, 601, 1, 399), (603, 603, 1, 400), (604, 604, 1, 42923),
      (608, 608, 1, 403), (609, 609, 1, 42924), (611, 611, 1, 404), (613, 613, 1, 42893),
      (614, 614, 1, 42922), (616, 616, 1, 407), (617, 617, 1, 406), (618, 618, 1, 42926),
      (619, 619, 1, 11362), (620, 620, 1, 42925), (623, 623, 1, 412), (625, 625, 1, 11374),
      (626, 626, 1, 413), (629, 629, 1, 415), (637, 637, 1, 11364), (640, 640, 1, 422),
      (642, 642, 1, 42949), (643, 643, 1, 425), (647, 647, 1, 42929), (648, 648, 1, 430),
      (649, 649, 1, 580), (650, 651, 1, 433), (652, 652, 1, 581), (658, 658, 1, 439),
      (669, 669, 1, 42930), (670, 670, 1, 42928), (837, 837, 1, 921), (881, 883, 2, 880),
      (887, 887, 1, 886), (891, 893, 1, 1021), (940, 940, 1, 902), (941, 943, 1, 904),
      (945, 961, 1, 913), (962, 962, 1, 931), (963, 971, 1, 931), (972, 972, 1, 908),
      (973, 974, 1, 910), (976, 976, 1, 914), (977, 977, 1, 920), (981, 981, 1, 934),
      (982, 982, 1, 928), (983, 983, 1, 975), (985, 1007, 2, 984), (1008, 1008, 1, 922),
      (1009, 1009, 1, 929), (1010, 1010, 1, 1017), (1011, 1011, 1, 895), (1013, 1013, 1, 917),
      (1016, 1016, 1, 1015), (1019, 1019, 1, 1018), (1072, 1103, 1, 1040),
      (1104, 1119, 1, 1024), (1121, 1153, 2, 1120), (1163, 1215, 2, 1162),
      (1218, 1230, 2, 1217), (1231, 1231, 1, 1216), (1233, 1327, 2, 1232),
      (1377, 1414, 1, 1329), (4304, 4346, 1, 7312), (4349, 4351, 1, 7357),
      (5112, 5117, 1, 5104), (7296, 7296, 1, 1042), (7297, 7297, 1, 1044),
      (7298, 7298, 1, 1054), (7299, 7300, 1, 1057), (7301, 7301, 1, 1058),
      (7302, 7302, 1, 1066), (7303, 7303, 1, 1122), (7304, 7304, 1, 42570),
      (7545, 7545, 1, 42877), (7549, 7549, 1, 11363), (7566, 7566, 1, 42950),
      (7681, 7829, 2, 7680), (7835, 7835, 1, 7776), (7841, 7935, 2, 7840),
      (7936, 7943, 1, 7944), (7952, 7957, 1, 7960), (7968, 7975, 1, 7976),
      (7984, 7991, 1, 7992), (8000, 8005, 1, 8008), (8017, 8023, 2, 8025),
      (8032, 8039, 1, 8040), (8048, 8049, 1, 8122), (8050, 8053, 1, 8136),
      (8054, 8055, 1, 8154), (8056, 8057, 1, 8184), (8058, 8059, 1, 8170),
      (8060, 8061, 1, 8186), (8112, 8113, 1, 8120), (8126, 8126, 1, 921),
      (8144, 8145, 1, 8152), (8160, 8161, 1, 8168), (8165, 8165, 1, 8172),
      (8526, 8526, 1, 8498), (8560, 8575, 1, 8544), (8580, 8580, 1, 8579),
      (9424, 9449, 1, 9398), (11312, 11359, 1, 11264), (11361, 11361, 1, 11360),
      (11365, 11365, 1, 570), (11366, 11366, 1, 574), (11368, 11372, 2, 11367),
      (11379, 11379, 1, 11378), (11382, 11382, 1, 11381), (11393, 11491, 2, 11392),
      (11500, 11502, 2, 11499), (11507, 11507, 1, 11506), (11520, 11557, 1, 4256),
      (11559, 11559, 1, 4295), (11565, 11565, 1, 4301), (42561, 42605, 2, 42560),
      (42625, 42651, 2, 42624), (42787, 42799, 2, 42786), (42803, 42863, 2, 42802),
      (42874, 42876, 2, 42873), (42879, 42887, 2, 42878), (42892, 42892, 1, 42891),
      (42897, 42899, 2, 42896), (42900, 42900, 1, 42948), (42903, 42921, 2, 42902),
      (42933, 42947, 2, 42932), (42952, 42954, 2, 42951), (42961, 42961, 1, 42960),
      (42967, 42969, 2, 42966), (42998, 42998, 1, 42997), (43859, 43859, 1, 42931),
      (43888, 43967, 1, 5024), (65345, 65370, 1, 65313), (66600, 66639, 1, 66560),
      (66776, 66811, 1, 66736), (66967, 67003, 2, 66928), (66968, 66976, 2, 66929),
      (66980, 66992, 2, 66941), (66996, 67000, 2, 66957), (67004, 67004, 1, 66965),
      (68800, 68850, 1, 68736), (71872, 71903, 1, 71840), (93792, 93823, 1, 93760),
      (125218, 125251, 1, 125184)
     ]"

definition UPPER_SPECIAL :: "(nat \<times> ustring) list" where
  "UPPER_SPECIAL =
     [
      (223, [83, 83]), (329, [700, 78]), (496, [74, 780]), (912, [921, 776, 769]),
      (944, [933, 776, 769]), (1415, [1333, 1362]), (7830, [72, 817]), (7831, [84, 776]),
      (7832, [87, 778]), (7833, [89, 778]), (7834, [65, 702]), (8016, [933, 787]),
      (8018, [933, 787, 768]), (8020, [933, 787, 769]), (8022, [933, 787, 834]),
      (8064, [7944, 921]), (8065, [7945, 921]), (8066, [7946, 921]), (8067, [7947, 921]),
      (8068, [7948, 921]), (8069, [7949, 921]), (8070, [7950, 921]), (8071, [7951, 921]),
      (8072, [7944, 921]), (8073, [7945, 921]), (8074, [7946, 921]), (8075, [7947, 921]),
      (8076, [7948, 921]), (8077, [7949, 921]), (8078, [7950, 921]), (8079, [7951, 921]),
      (8080, [7976, 921]), (8081, [7977, 921]), (8082, [7978, 921]), (8083, [7979, 921]),
      (8084, [7980, 921]), (8085, [7981, 921]), (8086, [7982, 921]), (8087, [7983, 921]),
      (8088, [7976, 921]), (8089, [7977, 921]), (8090, [7978, 921]), (8091, [7979, 921]),
      (8092, [7980, 921]), (8093, [7981, 921]), (8094, [7982, 921]), (8095, [7983, 921]),
      (8096, [8040, 921]), (8097, [8041, 921]), (8098, [8042, 921]), (8099, [8043, 921]),
      (8100, [8044, 921]), (8101, [8045, 921]), (8102, [8046, 921]), (8103, [8047, 921]),
      (8104, [8040, 921]), (8105, [8041, 921]), (8106, [8042, 921]), (8107, [8043, 921]),
      (8108, [8044, 921]), (8109, [8045, 921]), (8110, [8046, 921]), (8111, [8047, 921]),
      (8114, [8122, 921]), (8115, [913, 921]), (8116, [902, 921]), (8118, [913, 834]),
      (8119, [913, 834, 921]), (8124, [913, 921]), (8130, [8138, 921]), (8131, [919, 921]),
      (8132, [905, 921]), (8134, [919, 834]), (8135, [919, 834, 921]), (8140, [919, 921]),
      (8146, [921, 776, 768]), (8147, [921, 776, 769]), (8150, [921, 834]),
      (8151, [921, 776, 834]), (8162, [933, 776, 768]), (8163, [933, 776, 769]),
      (8164, [929, 787]), (8166, [933, 834]), (8167, [933, 776, 834]), (8178, [8186, 921]),
      (8179, [937, 921]), (8180, [911, 921]), (8182, [937, 834]), (8183, [937, 834, 921]),
      (8188, [937, 921]), (64256, [70, 70]), (64257, [70, 73]), (64258, [70, 76]),
      (64259, [70, 70, 73]), (64260, [70, 70, 76]), (64261, [83, 84]), (64262, [83, 84]),
      (64275, [1348, 1350]), (64276, [1348, 1333]), (64277, [1348, 1339]),
      (64278, [1358, 1350]), (64279, [1348, 1341])
     ]"

fun upper_in :: "nat \<Rightarrow> (nat \<times> nat \<times> nat \<times> nat) list \<Rightarrow> ustring" where
  "upper_in c [] = [c]"
| "upper_in c ((lo, hi, step, target) # rs) =
     (if lo \<le> c \<and> c \<le> hi \<and> (c - lo) mod step = 0 then [target + (c - lo)]
      else upper_in c rs)"

definition upper_cp :: "nat \<Rightarrow> ustring" where
  "upper_cp c =
     (if c < 181 then (if 97 \<le> c \<and> c \<le> 122 then [c - 32] else [c])
      else case map_of UPPER_SPECIAL c of
             Some s \<Rightarrow> s
           | None \<Rightarrow> upper_in c UPPER_RANGES)"

definition upper :: "ustring \<Rightarrow> ustring" where
  "upper s = concat (map upper_cp s)"

text \<open>\<^verbatim>\<open>sep.join(parts)\<close>.\<close>

fun join :: "ustring \<Rightarrow> ustring list \<Rightarrow> ustring" where
  "join sep [] = []"
| "join sep [p] = p"
| "join sep (p # q # ps) = p @ sep @ join sep (q # ps)"

text \<open>\<^verbatim>\<open>k in s\<close> for strings: \<open>k\<close> occurs in \<open>s\<close> as a contiguous substring.\<close>

fun starts_with :: "ustring \<Rightarrow> ustring \<Rightarrow> bool" where
  "starts_with [] s = True"
| "starts_with (k # ks) [] = False"
| "starts_with (k # ks) (c # cs) = (k = c \<and> starts_with ks cs)"

fun contains :: "ustring \<Rightarrow> ustring \<Rightarrow> bool" where
  "contains k [] = (k = [])"
| "contains k (c # cs) = (starts_with k (c # cs) \<or> contains k cs)"

text \<open>\<^verbatim>\<open>str(n)\<close> for a Python \<^verbatim>\<open>int\<close>: decimal digits, with a minus sign when negative.\<close>

function digits :: "nat \<Rightarrow> ustring" where
  "digits n = (if n < 10 then [48 + n] else digits (n div 10) @ [48 + n mod 10])"
  by pat_completeness auto
termination
  by (relation "measure id") auto

declare digits.simps [simp del]

definition str_int :: "int \<Rightarrow> ustring" where
  "str_int i = (if i < 0 then 45 # digits (nat (- i)) else digits (nat i))"

section \<open>Cell values\<close>

text \<open>
  A Python \<^verbatim>\<open>float\<close>: \<open>Finite m e\<close> is the number \<open>m * 2 ^ e\<close>; the other three
  are the infinities and not-a-number. \<^verbatim>\<open>is_integer()\<close> is false on those three, and
  \<^verbatim>\<open>int(x)\<close> truncates towards zero.
\<close>

datatype pyfloat = Finite int int | PosInf | NegInf | NaN

fun is_integer :: "pyfloat \<Rightarrow> bool" where
  "is_integer (Finite m e) = (if 0 \<le> e then True else m mod 2 ^ nat (- e) = 0)"
| "is_integer PosInf = False"
| "is_integer NegInf = False"
| "is_integer NaN = False"

fun int_of_float :: "pyfloat \<Rightarrow> int" where
  "int_of_float (Finite m e) =
     (if 0 \<le> e then m * 2 ^ nat e
      else if 0 \<le> m then m div 2 ^ nat (- e) else - ((- m) div 2 ^ nat (- e)))"
| "int_of_float PosInf = 0"
| "int_of_float NegInf = 0"
| "int_of_float NaN = 0"

text \<open>
  The raw value of a worksheet cell, as openpyxl hands it over. \<open>CFloat x t\<close> carries,
  next to the number, the text \<open>t\<close> that \<^verbatim>\<open>str(x)\<close> gives for it (the interpreter's
  shortest round-trip rendering, which is not part of the program); \<open>COther t\<close> is any
  other object (a date, a time), known by its \<^verbatim>\<open>str\<close> text. A \<^verbatim>\<open>bool\<close> is an
  instance of \<^verbatim>\<open>int\<close> in Python and prints as \<^verbatim>\<open>True\<close> or \<^verbatim>\<open>False\<close>.
\<close>

datatype cell_value =
    CNone
  | CStr ustring
  | CInt int
  | CBool bool
  | CFloat pyfloat ustring
  | COther ustring

section \<open>Utilities\<close>

definition EMPTY_TOKENS :: "ustring set" where
  "EMPTY_TOKENS = {u ''-'', [8212], [8211], u ''n/a'', u ''na'', u ''null'', u ''none''}"

text \<open>Lines 97 to 102 of \<^verbatim>\<open>normalize_cell\<close>: the text of a value that is not \<^verbatim>\<open>None\<close>.\<close>

fun to_text :: "cell_value \<Rightarrow> ustring" where
  "to_text CNone = u ''None''"
| "to_text (CStr s) = s"
| "to_text (CInt i) = str_int i"
| "to_text (CBool b) = (if b then u ''True'' else u ''False'')"
| "to_text (CFloat x t) = (if is_integer x then str_int (int_of_float x) else t)"
| "to_text (COther t) = t"

text \<open>Lines 104 and 105: the two replacements, the collapse and the strip.\<close>

definition clean :: "ustring \<Rightarrow> ustring" where
  "clean s = strip (collapse_ws (replace_char 13 32 (replace_char 10 32 s)))"

definition normalize_cell :: "cell_value \<Rightarrow> ustring option" where
  "normalize_cell v =
     (case v of
        CNone \<Rightarrow> None
      | _ \<Rightarrow>
         (let s = clean (to_text v)
          in if s = [] then None
             else if lower s \<in> EMPTY_TOKENS then None
             else Some s))"

text \<open>
  \<^verbatim>\<open>join_valid\<close>: the loop collects the normalised values that are not \<^verbatim>\<open>None\<close>;
  \<open>valid_parts\<close> is that loop, with \<open>parts\<close> as its accumulator.
\<close>

fun valid_parts :: "cell_value list \<Rightarrow> ustring list \<Rightarrow> ustring list" where
  "valid_parts [] parts = parts"
| "valid_parts (v # vs) parts =
     (case normalize_cell v of
        None \<Rightarrow> valid_parts vs parts
      | Some nv \<Rightarrow> valid_parts vs (parts @ [nv]))"

definition join_valid :: "cell_value list \<Rightarrow> ustring \<Rightarrow> ustring option" where
  "join_valid vals sep =
     (let parts = valid_parts vals []
      in if parts = [] then None
         else let out = strip (collapse_ws (join sep parts))
              in if out = [] then None else Some out)"

text \<open>The separator that every call of the program uses: \<^verbatim>\<open>sep=" "\<close>.\<close>

definition default_sep :: ustring where
  "default_sep = [32]"

text \<open>
  A worksheet: \<open>cell ws c r\<close> is \<^verbatim>\<open>ws[f"{c}{r}"].value\<close> for the column letters \<open>c\<close>
  and the row number \<open>r\<close>, and \<open>max_row\<close> is openpyxl's \<^verbatim>\<open>ws.max_row\<close>, with 0 for
  every value that Python's \<^verbatim>\<open>or\<close> takes as false (0 and \<^verbatim>\<open>None\<close>).
\<close>

record worksheet =
  cell :: "string \<Rightarrow> nat \<Rightarrow> cell_value"
  max_row :: nat

definition get_group :: "worksheet \<Rightarrow> nat \<Rightarrow> string list \<Rightarrow> ustring \<Rightarrow> ustring option" where
  "get_group ws row cols sep = join_valid (map (\<lambda>c. cell ws c row) cols) sep"

section \<open>Configuration\<close>

definition START_ROW :: nat where
  "START_ROW = 11"

definition COLS_EQUIP_TAG :: "string list" where
  "COLS_EQUIP_TAG = [''B'']"

definition COLS_EQUIP_DESC :: "string list" where
  "COLS_EQUIP_DESC = [''C'', ''D'']"

definition COLS_FONTE_TAG :: "string list" where
  "COLS_FONTE_TAG = [''E'', ''F'', ''G'']"

definition COLS_FONTE_DESC :: "string list" where
  "COLS_FONTE_DESC = [''H'', ''I'', ''J'', ''K'', ''L'']"

definition COLS_COMO_BLOQUEAR :: "string list" where
  "COLS_COMO_BLOQUEAR = [''M'', ''N'']"

definition COLS_ONDE_BLOQUEAR :: "string list" where
  "COLS_ONDE_BLOQUEAR = [''O'', ''P'', ''Q'', ''R'', ''S'']"

definition COLS_TIPO_BLOQUEIO :: "string list" where
  "COLS_TIPO_BLOQUEIO = [''T'', ''U'']"

definition COLS_COMO_DESBLOQUEAR :: "string list" where
  "COLS_COMO_DESBLOQUEAR = [''Z'', ''AA'']"

text \<open>
  \<^verbatim>\<open>sorted(set(...))\<close> of the eight lists above: the columns without repetition, in
  the order of Python's string comparison, which on these names is the lexicographic
  order of the characters.
\<close>

definition ALL_RELEVANT_COLS :: "string list" where
  "ALL_RELEVANT_COLS =
     sort (remdups
       (COLS_EQUIP_TAG @ COLS_EQUIP_DESC @ COLS_FONTE_TAG @ COLS_FONTE_DESC @
        COLS_COMO_BLOQUEAR @ COLS_ONDE_BLOQUEAR @ COLS_TIPO_BLOQUEIO @ COLS_COMO_DESBLOQUEAR))"

text \<open>The accented capitals are U+00CA (in \<^verbatim>\<open>PROVIDENCIAS\<close>) and U+00C1 (in \<^verbatim>\<open>PAGINA\<close>).\<close>

definition FOOTER_KEYWORDS :: "ustring list" where
  "FOOTER_KEYWORDS =
     [u ''LEGENDA'', u ''ELABORADOR'', u ''REVISOR'', u ''APROVADOR'', u ''PROVIDENCIAS'',
      u ''PROVID'' @ [202] @ u ''NCIAS'', u ''DISPOSITIVO'', u ''LAYOUT'',
      u ''P'' @ [193] @ u ''GINA'', u ''PAGINA'']"

section \<open>Row predicates\<close>

fun any_data :: "worksheet \<Rightarrow> nat \<Rightarrow> string list \<Rightarrow> bool" where
  "any_data ws row [] = False"
| "any_data ws row (c # cs) =
     (case normalize_cell (cell ws c row) of
        Some v \<Rightarrow> True
      | None \<Rightarrow> any_data ws row cs)"

definition row_has_any_data :: "worksheet \<Rightarrow> nat \<Rightarrow> bool" where
  "row_has_any_data ws row = any_data ws row ALL_RELEVANT_COLS"

definition check_cols :: "string list" where
  "check_cols = [''A'', ''B'', ''C'', ''D'', ''E'', ''H'', ''M'', ''O'', ''T'', ''Z'', ''AA'']"

text \<open>The loop of \<^verbatim>\<open>row_has_footer_marker\<close>; \<^verbatim>\<open>if v:\<close> is false on \<^verbatim>\<open>None\<close> and on the empty string.\<close>

fun footer_texts :: "worksheet \<Rightarrow> nat \<Rightarrow> string list \<Rightarrow> ustring list \<Rightarrow> ustring list" where
  "footer_texts ws row [] texts = texts"
| "footer_texts ws row (c # cs) texts =
     (case normalize_cell (cell ws c row) of
        None \<Rightarrow> footer_texts ws row cs texts
      | Some v \<Rightarrow>
          if v = [] then footer_texts ws row cs texts
          else footer_texts ws row cs (texts @ [upper v]))"

definition row_has_footer_marker :: "worksheet \<Rightarrow> nat \<Rightarrow> bool" where
  "row_has_footer_marker ws row =
     (let texts = footer_texts ws row check_cols []
      in if texts = [] then False
         else let joined = join (u '' | '') texts
              in list_ex (\<lambda>k. contains k joined) FOOTER_KEYWORDS)"

section \<open>Processing a worksheet\<close>

text \<open>
  The dictionary that \<^verbatim>\<open>process_workbook\<close> builds for a row has nine fixed keys; it is
  a record with one field for each, in the order of the source.
\<close>

record matrix_record =
  arquivo_de_origem :: ustring
  tag_do_equipamento :: "ustring option"
  descricao_do_equipamento :: "ustring option"
  tag_da_fonte_de_energia :: "ustring option"
  descricao_da_fonte_de_energia :: "ustring option"
  como_bloquear :: "ustring option"
  onde_bloquear_tag :: "ustring option"
  tipo_de_bloqueio :: "ustring option"
  como_desbloquear :: "ustring option"

text \<open>
  Lines 271 to 274, and again 276 to 279: from the value of the row and the last value
  seen, the value that goes into the record and the new last value.
\<close>

definition fill_down :: "ustring option \<Rightarrow> ustring option \<Rightarrow> ustring option \<times> ustring option" where
  "fill_down v last_seen = (case v of None \<Rightarrow> (last_seen, last_seen) | Some x \<Rightarrow> (Some x, Some x))"

definition has_source_info :: "matrix_record \<Rightarrow> bool" where
  "has_source_info r \<longleftrightarrow>
     list_ex (\<lambda>k. k r \<noteq> None)
       [tag_da_fonte_de_energia, descricao_da_fonte_de_energia, como_bloquear,
        onde_bloquear_tag, tipo_de_bloqueio, como_desbloquear]"

record loop_state =
  records :: "matrix_record list"
  last_equip_tag :: "ustring option"
  last_equip_desc :: "ustring option"

text \<open>
  The body of the loop over the rows, from the state before a row to the state after
  the loop: \<^verbatim>\<open>break\<close> returns the state as it is, \<^verbatim>\<open>continue\<close> goes to the next row.
\<close>

fun process_rows :: "worksheet \<Rightarrow> ustring \<Rightarrow> nat list \<Rightarrow> loop_state \<Rightarrow> loop_state" where
  "process_rows ws source_file_name [] st = st"
| "process_rows ws source_file_name (r # rs) st =
     (if row_has_footer_marker ws r then st
      else if \<not> row_has_any_data ws r then process_rows ws source_file_name rs st
      else
        let (equip_tag, last_tag) =
              fill_down (get_group ws r COLS_EQUIP_TAG default_sep) (last_equip_tag st);
            (equip_desc, last_desc) =
              fill_down (get_group ws r COLS_EQUIP_DESC default_sep) (last_equip_desc st);
            record = \<lparr>
              arquivo_de_origem = source_file_name,
              tag_do_equipamento = equip_tag,
              descricao_do_equipamento = equip_desc,
              tag_da_fonte_de_energia = get_group ws r COLS_FONTE_TAG default_sep,
              descricao_da_fonte_de_energia = get_group ws r COLS_FONTE_DESC default_sep,
              como_bloquear = get_group ws r COLS_COMO_BLOQUEAR default_sep,
              onde_bloquear_tag = get_group ws r COLS_ONDE_BLOQUEAR default_sep,
              tipo_de_bloqueio = get_group ws r COLS_TIPO_BLOQUEIO default_sep,
              como_desbloquear = get_group ws r COLS_COMO_DESBLOQUEAR default_sep \<rparr>;
            st' = st\<lparr>last_equip_tag := last_tag, last_equip_desc := last_desc\<rparr>
        in if \<not> has_source_info record then process_rows ws source_file_name rs st'
           else process_rows ws source_file_name rs (st'\<lparr>records := records st' @ [record]\<rparr>))"

text \<open>
  Lines 255 to 316, with the first row as a parameter (the program's is \<open>START_ROW\<close>):
  \<^verbatim>\<open>max_row = ws.max_row or START_ROW\<close>, then the rows
  \<^verbatim>\<open>range(START_ROW, max_row + 1)\<close>.
\<close>

definition process_sheet :: "nat \<Rightarrow> worksheet \<Rightarrow> ustring \<Rightarrow> matrix_record list" where
  "process_sheet start_row ws source_file_name =
     (let last_row = (if max_row ws = 0 then start_row else max_row ws)
      in records (process_rows ws source_file_name [start_row ..< last_row + 1]
           \<lparr>records = [], last_equip_tag = None, last_equip_desc = None\<rparr>))"

section \<open>The batch driver\<close>

text \<open>
  An exception that reaches the \<^verbatim>\<open>except Exception\<close> clause of \<^verbatim>\<open>main\<close>, known by
  its text \<^verbatim>\<open>str(e)\<close>. A path is known by what the program reads of it: its
  directory, its \<^verbatim>\<open>name\<close> and its \<^verbatim>\<open>suffix\<close>.
\<close>

datatype error = Error ustring

fun error_text :: "error \<Rightarrow> ustring" where
  "error_text (Error t) = t"

record path =
  parent :: ustring
  name :: ustring
  suffix :: ustring

text \<open>
  The two operations on the outer world, \<^verbatim>\<open>load_workbook\<close> of openpyxl and
  \<^verbatim>\<open>convert_xls_to_xlsx\<close> (Excel driven through COM), are parameters: each takes the
  state of the world \<open>'w\<close>, gives back the new one, and either raises or returns. A
  workbook is the list of its worksheets.
\<close>

type_synonym 'w loader = "path \<Rightarrow> 'w \<Rightarrow> (error + worksheet list) \<times> 'w"

type_synonym 'w converter = "path \<Rightarrow> 'w \<Rightarrow> (error + path) \<times> 'w"

text \<open>
  \<^verbatim>\<open>process_workbook\<close>: \<^verbatim>\<open>wb.worksheets[0]\<close> raises \<^verbatim>\<open>IndexError\<close> on a workbook
  with no worksheet.
\<close>

definition process_workbook ::
  "'w loader \<Rightarrow> path \<Rightarrow> ustring \<Rightarrow> 'w \<Rightarrow> (error + matrix_record list) \<times> 'w" where
  "process_workbook load_workbook path_xlsx source_file_name w =
     (case load_workbook path_xlsx w of
        (Inl e, w') \<Rightarrow> (Inl e, w')
      | (Inr wb, w') \<Rightarrow>
          (case wb of
             [] \<Rightarrow> (Inl (Error (u ''list index out of range'')), w')
           | ws # _ \<Rightarrow> (Inr (process_sheet START_ROW ws source_file_name), w')))"

record main_state =
  all_records :: "matrix_record list"
  processed :: nat
  converted :: nat
  failed :: "(ustring \<times> ustring) list"

text \<open>The \<^verbatim>\<open>except\<close> clause: the pair of the file's name and the error text is appended.\<close>

definition record_failure :: "path \<Rightarrow> error \<Rightarrow> main_state \<Rightarrow> main_state" where
  "record_failure f e st = st\<lparr>failed := failed st @ [(name f, error_text e)]\<rparr>"

text \<open>The last two statements of the \<^verbatim>\<open>try\<close> block.\<close>

definition record_success :: "matrix_record list \<Rightarrow> main_state \<Rightarrow> main_state" where
  "record_success recs st =
     st\<lparr>all_records := all_records st @ recs, processed := processed st + 1\<rparr>"

text \<open>The loop of \<^verbatim>\<open>main\<close> over the files (lines 341 to 357), without the printing.\<close>

fun main_loop ::
  "'w converter \<Rightarrow> 'w loader \<Rightarrow> path list \<Rightarrow> main_state \<Rightarrow> 'w \<Rightarrow> main_state \<times> 'w" where
  "main_loop convert_xls_to_xlsx load_workbook [] st w = (st, w)"
| "main_loop convert_xls_to_xlsx load_workbook (f # fs) st w =
     (if lower (suffix f) = u ''.xls'' then
        (case convert_xls_to_xlsx f w of
           (Inl e, w1) \<Rightarrow>
             main_loop convert_xls_to_xlsx load_workbook fs (record_failure f e st) w1
         | (Inr xlsx_path, w1) \<Rightarrow>
             let st1 = st\<lparr>converted := converted st + 1\<rparr>
             in (case process_workbook load_workbook xlsx_path (name f) w1 of
                   (Inl e, w2) \<Rightarrow>
                     main_loop convert_xls_to_xlsx load_workbook fs (record_failure f e st1) w2
                 | (Inr recs, w2) \<Rightarrow>
                     main_loop convert_xls_to_xlsx load_workbook fs (record_success recs st1) w2))
      else
        (case process_workbook load_workbook f (name f) w of
           (Inl e, w1) \<Rightarrow>
             main_loop convert_xls_to_xlsx load_workbook fs (record_failure f e st) w1
         | (Inr recs, w1) \<Rightarrow>
             main_loop convert_xls_to_xlsx load_workbook fs (record_success recs st) w1))"

definition initial_state :: main_state where
  "initial_state = \<lparr>all_records = [], processed = 0, converted = 0, failed = []\<rparr>"

section \<open>Notions of the specification\<close>

text \<open>
  The definitions of this section are not code of the program: they say, in the words of
  the specification, what the program is compared with.
\<close>

text \<open>
  A string is \<open>tidy\<close> when each of its white space characters is a space that no white
  space character follows.
\<close>

fun tidy :: "ustring \<Rightarrow> bool" where
  "tidy [] = True"
| "tidy [c] = (isspace c \<longrightarrow> c = 32)"
| "tidy (c # d # cs) = ((isspace c \<longrightarrow> c = 32 \<and> \<not> isspace d) \<and> tidy (d # cs))"

text \<open>
  Equality of two strings up to the case of the letters \<^verbatim>\<open>A\<close> to \<^verbatim>\<open>Z\<close>: what
  ``a letter-case variant of a token'' and ``case-insensitively equal to a token'' mean
  for the tokens of \<open>EMPTY_TOKENS\<close>.
\<close>

definition same_letter :: "nat \<Rightarrow> nat \<Rightarrow> bool" where
  "same_letter c d \<longleftrightarrow>
     c = d \<or> (65 \<le> c \<and> c \<le> 90 \<and> d = c + 32) \<or> (65 \<le> d \<and> d \<le> 90 \<and> c = d + 32)"

definition caseless_eq :: "ustring \<Rightarrow> ustring \<Rightarrow> bool" where
  "caseless_eq s t \<longleftrightarrow> list_all2 same_letter s t"

text \<open>
  The strings of a list with a separator between each two of them: the first string, then
  each further string with the separator before it.
\<close>

definition separated :: "ustring \<Rightarrow> ustring list \<Rightarrow> ustring" where
  "separated sep ps = (case ps of [] \<Rightarrow> [] | p # qs \<Rightarrow> p @ concat (map (\<lambda>q. sep @ q) qs))"

text \<open>
  The words of a string: its maximal runs of characters that are not white space, in
  their order (what \<^verbatim>\<open>s.split()\<close> gives). A string with its white space collapsed and
  trimmed is its words with one space between each two of them.
\<close>

function split_words :: "ustring \<Rightarrow> ustring list" where
  "split_words [] = []"
| "split_words (c # cs) =
     (if isspace c then split_words cs
      else (c # takeWhile (\<lambda>x. \<not> isspace x) cs) #
           split_words (dropWhile (\<lambda>x. \<not> isspace x) cs))"
  by pat_completeness auto
termination
  by (relation "measure length") (auto simp: le_imp_less_Suc length_dropWhile_le)

definition collapsed_trimmed :: "ustring \<Rightarrow> ustring" where
  "collapsed_trimmed s = separated [32] (split_words s)"

text \<open>
  The Field Grouper as the specification words it: normalise each cell of the columns,
  keep the results that are not absent in their order, join them with the separator,
  collapse the white space, trim; absent when nothing is kept.
\<close>

definition group_spec :: "worksheet \<Rightarrow> nat \<Rightarrow> string list \<Rightarrow> ustring \<Rightarrow> ustring option" where
  "group_spec ws row cols sep =
     (let kept = List.map_filter (\<lambda>c. normalize_cell (cell ws c row)) cols
      in if kept = [] then None else Some (collapsed_trimmed (separated sep kept)))"

text \<open>
  The footer test as the specification words it: some marker column has a normalised
  value whose upper case contains a footer keyword.
\<close>

definition is_footer :: "worksheet \<Rightarrow> nat \<Rightarrow> bool" where
  "is_footer ws r \<longleftrightarrow>
     list_ex
       (\<lambda>c. case normalize_cell (cell ws c r) of
              None \<Rightarrow> False
            | Some v \<Rightarrow> list_ex (\<lambda>k. contains k (upper v)) FOOTER_KEYWORDS)
       check_cols"

text \<open>
  The Fill-Down Tracker run over a sequence of updates, from a stored value: the
  effective value of each update.
\<close>

fun run_updates :: "ustring option \<Rightarrow> ustring option list \<Rightarrow> ustring option list" where
  "run_updates last_seen [] = []"
| "run_updates last_seen (v # vs) =
     fst (fill_down v last_seen) # run_updates (snd (fill_down v last_seen)) vs"

text \<open>
  The value of a group of columns at row \<open>r\<close> or, when it is absent there, the most recent
  one above \<open>r\<close> that is not absent, looking no higher than the row \<open>start\<close>; absent when
  there is none.
\<close>

function most_recent :: "worksheet \<Rightarrow> string list \<Rightarrow> nat \<Rightarrow> nat \<Rightarrow> ustring option" where
  "most_recent ws cols start r =
     (case get_group ws r cols default_sep of
        Some x \<Rightarrow> Some x
      | None \<Rightarrow> if r \<le> start then None else most_recent ws cols start (r - 1))"
  by pat_completeness auto
termination
  by (relation "measure (\<lambda>(ws, cols, start, r). r)") auto

declare most_recent.simps [simp del]

text \<open>The six groups of columns that describe the energy source.\<close>

definition SOURCE_COLS :: "string list list" where
  "SOURCE_COLS =
     [COLS_FONTE_TAG, COLS_FONTE_DESC, COLS_COMO_BLOQUEAR, COLS_ONDE_BLOQUEAR,
      COLS_TIPO_BLOQUEIO, COLS_COMO_DESBLOQUEAR]"

definition row_source_info :: "worksheet \<Rightarrow> nat \<Rightarrow> bool" where
  "row_source_info ws r \<longleftrightarrow>
     list_ex (\<lambda>cols. get_group ws r cols default_sep \<noteq> None) SOURCE_COLS"

text \<open>
  The record of row \<open>r\<close> of a sheet whose data start at row \<open>start\<close>: the two equipment
  fields filled down, the six others read from the row.
\<close>

definition row_record :: "worksheet \<Rightarrow> ustring \<Rightarrow> nat \<Rightarrow> nat \<Rightarrow> matrix_record" where
  "row_record ws source_file_name start r = \<lparr>
     arquivo_de_origem = source_file_name,
     tag_do_equipamento = most_recent ws COLS_EQUIP_TAG start r,
     descricao_do_equipamento = most_recent ws COLS_EQUIP_DESC start r,
     tag_da_fonte_de_energia = get_group ws r COLS_FONTE_TAG default_sep,
     descricao_da_fonte_de_energia = get_group ws r COLS_FONTE_DESC default_sep,
     como_bloquear = get_group ws r COLS_COMO_BLOQUEAR default_sep,
     onde_bloquear_tag = get_group ws r COLS_ONDE_BLOQUEAR default_sep,
     tipo_de_bloqueio = get_group ws r COLS_TIPO_BLOQUEIO default_sep,
     como_desbloquear = get_group ws r COLS_COMO_DESBLOQUEAR default_sep \<rparr>"

text \<open>The last row that the loop may visit, and the rows before the first footer row.\<close>

definition last_row :: "nat \<Rightarrow> worksheet \<Rightarrow> nat" where
  "last_row start ws = (if max_row ws = 0 then start else max_row ws)"

definition data_rows :: "nat \<Rightarrow> worksheet \<Rightarrow> nat list" where
  "data_rows start ws =
     takeWhile (\<lambda>r. \<not> row_has_footer_marker ws r) [start ..< last_row start ws + 1]"

text \<open>The rows that give a record: those of \<open>data_rows\<close> with a source field.\<close>

definition record_rows :: "nat \<Rightarrow> worksheet \<Rightarrow> nat list" where
  "record_rows start ws = filter (row_source_info ws) (data_rows start ws)"

text \<open>
  What happens to one file of the batch, and to each file of a batch in turn: the file
  with either the error that made it fail or its records.
\<close>

definition file_outcome ::
  "'w converter \<Rightarrow> 'w loader \<Rightarrow> path \<Rightarrow> 'w \<Rightarrow> (error + matrix_record list) \<times> 'w" where
  "file_outcome conv load f w =
     (if lower (suffix f) = u ''.xls'' then
        (case conv f w of
           (Inl e, w1) \<Rightarrow> (Inl e, w1)
         | (Inr p, w1) \<Rightarrow> process_workbook load p (name f) w1)
      else process_workbook load f (name f) w)"

fun outcomes ::
  "'w converter \<Rightarrow> 'w loader \<Rightarrow> path list \<Rightarrow> 'w \<Rightarrow> (path \<times> (error + matrix_record list)) list" where
  "outcomes conv load [] w = []"
| "outcomes conv load (f # fs) w =
     (f, fst (file_outcome conv load f w)) # outcomes conv load fs (snd (file_outcome conv load f w))"

definition records_of :: "(path \<times> (error + matrix_record list)) list \<Rightarrow> matrix_record list" where
  "records_of os = concat (map (\<lambda>(f, res). case res of Inl e \<Rightarrow> [] | Inr recs \<Rightarrow> recs) os)"

definition failures_of :: "(path \<times> (error + matrix_record list)) list \<Rightarrow> (ustring \<times> ustring) list" where
  "failures_of os =
     concat (map (\<lambda>(f, res). case res of Inl e \<Rightarrow> [(name f, error_text e)] | Inr recs \<Rightarrow> []) os)"

definition successes_of :: "(path \<times> (error + matrix_record list)) list \<Rightarrow> nat" where
  "successes_of os = length (filter (\<lambda>(f, res). case res of Inl e \<Rightarrow> False | Inr recs \<Rightarrow> True) os)"

text \<open>
  A result of \<open>normalize_cell\<close> given to \<open>normalize_cell\<close> again: an absent value is
  \<^verbatim>\<open>None\<close>, a string is itself.
\<close>

definition as_cell :: "ustring option \<Rightarrow> cell_value" where
  "as_cell r = (case r of None \<Rightarrow> CNone | Some s \<Rightarrow> CStr s)"

text \<open>
  The shape of a value: not empty, no line feed (10) and no carriage return (13), no
  white space at either end, no two white space characters in a row.
\<close>

definition well_shaped :: "ustring \<Rightarrow> bool" where
  "well_shaped s \<longleftrightarrow>
     s \<noteq> [] \<and> 10 \<notin> set s \<and> 13 \<notin> set s \<and>
     \<not> isspace (hd s) \<and> \<not> isspace (last s) \<and>
     (\<forall>i. Suc i < length s \<longrightarrow> \<not> (isspace (s ! i) \<and> isspace (s ! Suc i)))"

definition is_sentinel :: "ustring \<Rightarrow> bool" where
  "is_sentinel s \<longleftrightarrow> (\<exists>t \<in> EMPTY_TOKENS. caseless_eq s t)"

text \<open>A cleaned string: not empty, tidy, no white space at either end.\<close>

definition neat :: "ustring \<Rightarrow> bool" where
  "neat s \<longleftrightarrow> s \<noteq> [] \<and> tidy s \<and> \<not> isspace (hd s) \<and> \<not> isspace (last s)"

text \<open>The eight fields of a record that hold values of the sheet.\<close>

definition field_values :: "matrix_record \<Rightarrow> ustring option list" where
  "field_values r =
     [tag_do_equipamento r, descricao_do_equipamento r, tag_da_fonte_de_energia r,
      descricao_da_fonte_de_energia r, como_bloquear r, onde_bloquear_tag r,
      tipo_de_bloqueio r, como_desbloquear r]"

text \<open>
  The number that a float stands for; the infinities and not-a-number stand for none.
  A float is mathematically integral when this number is an integer.
\<close>

fun float_value :: "pyfloat \<Rightarrow> rat option" where
  "float_value (Finite m e) =
     Some (if 0 \<le> e then of_int (m * 2 ^ nat e) else of_int m / of_int (2 ^ nat (- e)))"
| "float_value PosInf = None"
| "float_value NegInf = None"
| "float_value NaN = None"

section \<open>Examples\<close>

text \<open>
  A sheet for the examples. Row 11 has an equipment tag and a way to lock; row 12 has an
  equipment description only; row 13 has a way to unlock only; row 14 is blank; row 15
  has a new equipment tag, a source description in two columns, the second of them a
  sentinel, and a whole number stored as a float; row 16 is a footer row; row 17, below
  the footer, has a source tag.
\<close>

definition sheet1 :: worksheet where
  "sheet1 = \<lparr>
     cell = (\<lambda>c r.
       if r = 11 \<and> c = ''B'' then CStr (u ''EQ-1'')
       else if r = 11 \<and> c = ''M'' then CStr (u ''Valve A'')
       else if r = 12 \<and> c = ''C'' then CStr (u ''Pump'')
       else if r = 13 \<and> c = ''Z'' then CStr (u ''Open valve'')
       else if r = 15 \<and> c = ''B'' then CStr (u ''EQ-2'')
       else if r = 15 \<and> c = ''H'' then CStr (u ''Rede'')
       else if r = 15 \<and> c = ''I'' then CStr (u ''-'')
       else if r = 15 \<and> c = ''T'' then CFloat (Finite 4 (- 1)) (u ''2.0'')
       else if r = 16 \<and> c = ''A'' then CStr (u ''Legenda:'')
       else if r = 17 \<and> c = ''E'' then CStr (u ''X'')
       else CNone),
     max_row = 17 \<rparr>"

text \<open>
  A second sheet, with white space to collapse and to trim: in row 11 the column H holds
  \<^verbatim>\<open>Rede\<close> and \<^verbatim>\<open>externa\<close> with spaces before, a line feed between and a space after,
  the column I a sentinel, and the column J \<^verbatim>\<open>220\<close>, a tabulator and \<^verbatim>\<open>V\<close>.
\<close>

definition sheet2 :: worksheet where
  "sheet2 = \<lparr>
     cell = (\<lambda>c r.
       if r = 11 \<and> c = ''H'' then CStr ([32, 32] @ u ''Rede'' @ [32, 10, 32] @ u ''externa'' @ [32])
       else if r = 11 \<and> c = ''I'' then CStr (u ''N/A'')
       else if r = 11 \<and> c = ''J'' then CStr (u ''220'' @ [9] @ u ''V'')
       else CNone),
     max_row = 11 \<rparr>"

text \<open>
  A third sheet, whose footer row is written with a letter outside Latin-1: row 12 holds
  \<^verbatim>\<open>d\<close>, the dotless i (U+0131) and \<^verbatim>\<open>spositivo de trava\<close> in column M, which in upper
  case contains \<^verbatim>\<open>DISPOSITIVO\<close>. Rows 11 and 13 have a source tag.
\<close>

definition sheet3 :: worksheet where
  "sheet3 = \<lparr>
     cell = (\<lambda>c r.
       if r = 11 \<and> c = ''E'' then CStr (u ''F-1'')
       else if r = 12 \<and> c = ''M'' then CStr (u ''d'' @ [305] @ u ''spositivo de trava'')
       else if r = 13 \<and> c = ''E'' then CStr (u ''F-2'')
       else CNone),
     max_row = 13 \<rparr>"

text \<open>
  A batch for the examples: three files, of which the second cannot be loaded and the
  third is a legacy file that is converted first. The world has no state of its own.
\<close>

definition file_a :: path where
  "file_a = \<lparr>parent = u ''planilhas'', name = u ''a.xlsx'', suffix = u ''.xlsx''\<rparr>"

definition file_b :: path where
  "file_b = \<lparr>parent = u ''planilhas'', name = u ''b.xlsx'', suffix = u ''.xlsx''\<rparr>"

definition file_c :: path where
  "file_c = \<lparr>parent = u ''planilhas'', name = u ''c.XLS'', suffix = u ''.XLS''\<rparr>"

definition example_convert :: "unit converter" where
  "example_convert f w =
     (Inr \<lparr>parent = u ''convertidos'', name = u ''c.xlsx'', suffix = u ''.xlsx''\<rparr>, w)"

definition example_load :: "unit loader" where
  "example_load f w =
     (if name f = u ''b.xlsx'' then (Inl (Error (u ''File is not a zip file'')), w)
      else (Inr [sheet1], w))"

section \<open>White space\<close>

lemma isspace_32: "isspace 32" by (simp add: isspace_def)
lemma isspace_10: "isspace 10" by (simp add: isspace_def)
lemma isspace_13: "isspace 13" by (simp add: isspace_def)

lemma collapse_ws_hd:
  "collapse_ws (c # cs) = (if isspace c then 32 else c) # tl (collapse_ws (c # cs))"
  by simp

lemma collapse_ws_dropWhile_hd:
  "collapse_ws (dropWhile isspace cs) = d # ds \<Longrightarrow> \<not> isspace d"
proof (cases "dropWhile isspace cs")
  case Nil
  then show "collapse_ws (dropWhile isspace cs) = d # ds \<Longrightarrow> \<not> isspace d" by simp
next
  case (Cons e es)
  then have "\<not> isspace e" by (metis hd_dropWhile list.sel(1) list.distinct(1))
  then show "collapse_ws (dropWhile isspace cs) = d # ds \<Longrightarrow> \<not> isspace d"
    using Cons by simp
qed

lemma tidy_Cons:
  "tidy (c # cs) \<longleftrightarrow> (isspace c \<longrightarrow> c = 32 \<and> (cs = [] \<or> \<not> isspace (hd cs))) \<and> tidy cs"
  by (cases cs) auto

lemma tidy_collapse_ws: "tidy (collapse_ws s)"
proof (induction s rule: collapse_ws.induct)
  case 1
  show ?case by simp
next
  case (2 c cs)
  show ?case
  proof (cases "isspace c")
    case True
    with 2 have t: "tidy (collapse_ws (dropWhile isspace cs))" by simp
    have "collapse_ws (dropWhile isspace cs) = [] \<or> \<not> isspace (hd (collapse_ws (dropWhile isspace cs)))"
      by (cases "collapse_ws (dropWhile isspace cs)") (auto dest: collapse_ws_dropWhile_hd)
    with True t show ?thesis by (simp add: tidy_Cons)
  next
    case False
    with 2 show ?thesis by (simp add: tidy_Cons)
  qed
qed

lemma collapse_ws_tidy: "tidy s \<Longrightarrow> collapse_ws s = s"
proof (induction s)
  case Nil
  show ?case by simp
next
  case (Cons c cs)
  then have ih: "collapse_ws cs = cs" by (simp add: tidy_Cons)
  show ?case
  proof (cases "isspace c")
    case True
    with Cons.prems have "cs = [] \<or> \<not> isspace (hd cs)" by (simp add: tidy_Cons)
    then have "dropWhile isspace cs = cs" by (simp add: dropWhile_eq_self_iff)
    moreover from True Cons.prems have "c = 32" by (simp add: tidy_Cons)
    ultimately show ?thesis using True ih by simp
  next
    case False
    with ih show ?thesis by simp
  qed
qed

lemma tidy_set: "tidy s \<Longrightarrow> c \<in> set s \<Longrightarrow> isspace c \<Longrightarrow> c = 32"
  by (induction s) (auto simp: tidy_Cons)

lemma tidy_append: "tidy (a @ b) \<Longrightarrow> tidy a \<and> tidy b"
proof (induction a)
  case Nil
  then show ?case by simp
next
  case (Cons c cs)
  then show ?case by (cases cs) (auto simp: tidy_Cons)
qed

lemma strip_decomp: "\<exists>a b. s = a @ strip s @ b"
proof -
  let ?t = "dropWhile isspace s"
  have "takeWhile isspace (rev ?t) @ dropWhile isspace (rev ?t) = rev ?t" by simp
  then have "rev (dropWhile isspace (rev ?t)) @ rev (takeWhile isspace (rev ?t)) = ?t"
    by (metis rev_append rev_rev_ident)
  then have "?t = strip s @ rev (takeWhile isspace (rev ?t))" by (simp add: strip_def)
  moreover have "s = takeWhile isspace s @ ?t" by simp
  ultimately show ?thesis by metis
qed

lemma tidy_strip: "tidy s \<Longrightarrow> tidy (strip s)"
  using strip_decomp [of s] by (metis tidy_append)

lemma strip_last: "strip s \<noteq> [] \<Longrightarrow> \<not> isspace (last (strip s))"
  unfolding strip_def by (simp add: last_rev hd_dropWhile)

lemma strip_hd: "strip s \<noteq> [] \<Longrightarrow> \<not> isspace (hd (strip s))"
proof -
  assume ne: "strip s \<noteq> []"
  let ?t = "dropWhile isspace s"
  have "takeWhile isspace (rev ?t) @ dropWhile isspace (rev ?t) = rev ?t" by simp
  then have "rev (dropWhile isspace (rev ?t)) @ rev (takeWhile isspace (rev ?t)) = ?t"
    by (metis rev_append rev_rev_ident)
  then have eq: "?t = strip s @ rev (takeWhile isspace (rev ?t))" by (simp add: strip_def)
  with ne have "hd ?t = hd (strip s)" by (metis hd_append2)
  moreover from eq ne have "?t \<noteq> []" by (metis append_is_Nil_conv)
  ultimately show ?thesis by (metis hd_dropWhile)
qed

lemma strip_id: "s = [] \<or> (\<not> isspace (hd s) \<and> \<not> isspace (last s)) \<Longrightarrow> strip s = s"
proof (cases "s = []")
  case True
  then show ?thesis by (simp add: strip_def)
next
  case False
  assume "s = [] \<or> (\<not> isspace (hd s) \<and> \<not> isspace (last s))"
  with False have h: "\<not> isspace (hd s)" and l: "\<not> isspace (last s)" by auto
  from h have "dropWhile isspace s = s" by (simp add: dropWhile_eq_self_iff)
  moreover from l False have "dropWhile isspace (rev s) = rev s"
    by (simp add: dropWhile_eq_self_iff hd_rev)
  ultimately show ?thesis by (simp add: strip_def)
qed

lemma replace_char_id: "a \<notin> set s \<Longrightarrow> replace_char a b s = s"
  by (induction s) (auto simp: replace_char_def)

lemma tidy_no_nl: "tidy s \<Longrightarrow> 10 \<notin> set s \<and> 13 \<notin> set s"
  using tidy_set [of s 10] tidy_set [of s 13] isspace_10 isspace_13 by auto

lemma tidy_clean: "tidy (clean s)"
  by (simp add: clean_def tidy_strip tidy_collapse_ws)

lemma clean_hd_last: "clean s \<noteq> [] \<Longrightarrow> \<not> isspace (hd (clean s)) \<and> \<not> isspace (last (clean s))"
  by (simp add: clean_def strip_hd strip_last)

lemma clean_id:
  assumes "tidy s" and "s = [] \<or> (\<not> isspace (hd s) \<and> \<not> isspace (last s))"
  shows "clean s = s"
proof -
  from assms(1) have "replace_char 13 32 (replace_char 10 32 s) = s"
    by (simp add: tidy_no_nl replace_char_id)
  with assms show ?thesis by (simp add: clean_def collapse_ws_tidy strip_id)
qed

lemma clean_clean: "clean (clean s) = clean s"
  by (rule clean_id) (auto simp: tidy_clean dest: clean_hd_last)


lemma tidy_nth: "tidy s \<Longrightarrow> Suc i < length s \<Longrightarrow> \<not> (isspace (s ! i) \<and> isspace (s ! Suc i))"
proof (induction s arbitrary: i)
  case Nil
  then show ?case by simp
next
  case (Cons c cs)
  show ?case
  proof (cases i)
    case 0
    with Cons.prems show ?thesis by (cases cs) (auto simp: tidy_Cons)
  next
    case (Suc j)
    with Cons show ?thesis by (simp add: tidy_Cons)
  qed
qed

lemma well_shaped_clean: "clean s \<noteq> [] \<Longrightarrow> well_shaped (clean s)"
  unfolding well_shaped_def
  using tidy_clean [of s] tidy_no_nl [of "clean s"] clean_hd_last [of s] tidy_nth [of "clean s"]
  by blast

lemma no_ws_tidy: "\<forall>c \<in> set s. \<not> isspace c \<Longrightarrow> tidy s"
  by (induction s) (auto simp: tidy_Cons)

lemma no_ws_clean: "\<forall>c \<in> set s. \<not> isspace c \<Longrightarrow> clean s = s"
  by (rule clean_id) (auto simp: no_ws_tidy)

lemma set_dropWhile_keeps: "x \<in> set xs \<Longrightarrow> \<not> P x \<Longrightarrow> x \<in> set (dropWhile P xs)"
  by (induction xs) auto

lemma strip_keeps: "c \<in> set s \<Longrightarrow> \<not> isspace c \<Longrightarrow> c \<in> set (strip s)"
  by (simp add: strip_def set_dropWhile_keeps)

lemma collapse_ws_keeps: "c \<in> set s \<Longrightarrow> \<not> isspace c \<Longrightarrow> c \<in> set (collapse_ws s)"
  by (induction s rule: collapse_ws.induct) (auto simp: set_dropWhile_keeps)

lemma collapse_ws_all_ws: "\<forall>c \<in> set s. isspace c \<Longrightarrow> collapse_ws s = [] \<or> collapse_ws s = [32]"
proof (cases s)
  case Nil
  then show ?thesis by simp
next
  case (Cons c cs)
  assume "\<forall>c \<in> set s. isspace c"
  with Cons have c: "isspace c" and d: "dropWhile isspace cs = []" by simp_all
  show ?thesis by (simp add: Cons c d)
qed

lemma strip_all_ws: "\<forall>c \<in> set s. isspace c \<Longrightarrow> strip s = []"
proof -
  assume "\<forall>c \<in> set s. isspace c"
  then have d: "dropWhile isspace s = []" by simp
  show ?thesis by (simp add: strip_def d)
qed

lemma clean_all_ws: "\<forall>c \<in> set s. isspace c \<Longrightarrow> clean s = []"
proof -
  assume a: "\<forall>c \<in> set s. isspace c"
  have "\<forall>c \<in> set (replace_char 13 32 (replace_char 10 32 s)). isspace c"
    using a isspace_32 by (auto simp: replace_char_def)
  then have "\<forall>c \<in> set (collapse_ws (replace_char 13 32 (replace_char 10 32 s))). isspace c"
    using collapse_ws_all_ws isspace_32 by fastforce
  then show ?thesis unfolding clean_def by (rule strip_all_ws)
qed

section \<open>Letter case and the sentinel tokens\<close>

lemma same_letter_lower: "same_letter c d \<longleftrightarrow> lower_cp c = lower_cp d"
  by (auto simp: same_letter_def lower_cp_def)

lemma list_all2_same_image: "list_all2 (\<lambda>a b. f a = f b) s t \<longleftrightarrow> map f s = map f t"
proof (induction s arbitrary: t)
  case Nil
  show ?case by auto
next
  case (Cons c cs)
  show ?case by (cases t) (auto simp: Cons.IH)
qed

lemma caseless_eq_lower: "caseless_eq s t \<longleftrightarrow> lower s = lower t"
proof -
  have h: "same_letter = (\<lambda>c d. lower_cp c = lower_cp d)"
    by (intro ext) (rule same_letter_lower)
  show ?thesis unfolding caseless_eq_def lower_def h by (rule list_all2_same_image)
qed

lemma isspace_lower_cp: "isspace (lower_cp c) = isspace c"
  by (auto simp: isspace_def lower_cp_def)

lemma token_lower: "t \<in> EMPTY_TOKENS \<Longrightarrow> lower t = t"
  by (auto simp: EMPTY_TOKENS_def u_def lower_def lower_cp_def)

lemma token_no_ws: "t \<in> EMPTY_TOKENS \<Longrightarrow> c \<in> set t \<Longrightarrow> \<not> isspace c"
  by (auto simp: EMPTY_TOKENS_def u_def isspace_def)

lemma is_sentinel_lower: "is_sentinel s \<longleftrightarrow> lower s \<in> EMPTY_TOKENS"
  unfolding is_sentinel_def caseless_eq_lower
  by (metis token_lower)

lemma sentinel_no_ws: "is_sentinel s \<Longrightarrow> c \<in> set s \<Longrightarrow> \<not> isspace c"
proof -
  assume "is_sentinel s" and c: "c \<in> set s"
  then have "lower s \<in> EMPTY_TOKENS" by (simp add: is_sentinel_lower)
  moreover from c have "lower_cp c \<in> set (lower s)" by (simp add: lower_def)
  ultimately have "\<not> isspace (lower_cp c)" by (rule token_no_ws)
  then show ?thesis by (simp add: isspace_lower_cp)
qed

section \<open>The Cell Normalizer\<close>

lemma normalize_cell_Some:
  "normalize_cell v = Some s \<longleftrightarrow>
     v \<noteq> CNone \<and> s = clean (to_text v) \<and> s \<noteq> [] \<and> lower s \<notin> EMPTY_TOKENS"
  by (cases v) (auto simp: normalize_cell_def Let_def)

lemma normalize_cell_CStr:
  "normalize_cell (CStr s) =
     (if clean s = [] \<or> lower (clean s) \<in> EMPTY_TOKENS then None else Some (clean s))"
  by (simp add: normalize_cell_def Let_def)

text \<open>
  Claim C6. \<open>normalize_cell\<close> is idempotent: normalising the result of a normalisation,
  where an absent result is given back as \<^verbatim>\<open>None\<close>, changes nothing.
\<close>

theorem normalize_idempotent:
  "normalize_cell (as_cell (normalize_cell x)) = normalize_cell x"
proof (cases "normalize_cell x")
  case None
  then show ?thesis by (simp add: as_cell_def normalize_cell_def)
next
  case (Some s)
  then have s: "s = clean (to_text x)" and ne: "s \<noteq> []" and tok: "lower s \<notin> EMPTY_TOKENS"
    by (auto simp: normalize_cell_Some)
  from s have "clean s = s" by (simp add: clean_clean)
  with ne tok have "normalize_cell (CStr s) = Some s" by (simp add: normalize_cell_CStr)
  with Some show ?thesis by (simp add: as_cell_def)
qed

text \<open>
  Claim C5. Every letter-case variant of a token of \<open>EMPTY_TOKENS\<close> is normalised to
  absent; so are \<^verbatim>\<open>None\<close>, every value whose cleaned text is empty, and in
  particular every string made of white space only.
\<close>

theorem sentinels_absent:
  "(\<forall>t \<in> EMPTY_TOKENS. \<forall>s. caseless_eq s t \<longrightarrow> normalize_cell (CStr s) = None) \<and>
   normalize_cell CNone = None \<and>
   (\<forall>v. clean (to_text v) = [] \<longrightarrow> normalize_cell v = None) \<and>
   (\<forall>s. (\<forall>c \<in> set s. isspace c) \<longrightarrow> normalize_cell (CStr s) = None)"
proof (intro conjI ballI allI impI)
  fix t s
  assume t: "t \<in> EMPTY_TOKENS" and st: "caseless_eq s t"
  then have sen: "is_sentinel s" by (auto simp: is_sentinel_def)
  then have "clean s = s" by (intro no_ws_clean ballI) (rule sentinel_no_ws)
  moreover from sen have "lower s \<in> EMPTY_TOKENS" by (simp add: is_sentinel_lower)
  ultimately show "normalize_cell (CStr s) = None" by (simp add: normalize_cell_CStr)
next
  show "normalize_cell CNone = None" by (simp add: normalize_cell_def)
next
  fix v
  assume "clean (to_text v) = []"
  then show "normalize_cell v = None" by (cases v) (simp_all add: normalize_cell_def)
next
  fix s :: ustring
  assume "\<forall>c \<in> set s. isspace c"
  then have "clean s = []" by (rule clean_all_ws)
  then show "normalize_cell (CStr s) = None" by (simp add: normalize_cell_CStr)
qed

theorem sentinels_absent_witness:
  "u ''n/a'' \<in> EMPTY_TOKENS \<and> caseless_eq (u ''N/a'') (u ''n/a'') \<and>
   normalize_cell (CStr (u ''N/a'')) = None \<and>
   [8212] \<in> EMPTY_TOKENS \<and> caseless_eq [8212] [8212] \<and> normalize_cell (CStr [8212]) = None \<and>
   clean (to_text (CInt 0)) \<noteq> [] \<and>
   clean (to_text (COther [32, 9])) = [] \<and> normalize_cell (COther [32, 9]) = None \<and>
   isspace 10 \<and> isspace 32 \<and> isspace 160 \<and> normalize_cell (CStr [10, 32, 160]) = None"
proof -
  have t1: "u ''n/a'' \<in> EMPTY_TOKENS" and t2: "[8212] \<in> EMPTY_TOKENS"
    by (simp_all add: EMPTY_TOKENS_def)
  have c1: "caseless_eq (u ''N/a'') (u ''n/a'')" and c2: "caseless_eq [8212] [8212]"
    by (simp_all add: caseless_eq_def same_letter_def u_def)
  have e: "clean (to_text (COther [32, 9])) = []"
    by (simp add: clean_def strip_def replace_char_def isspace_def)
  have n: "clean (to_text (CInt 0)) \<noteq> []"
    by (simp add: clean_def strip_def replace_char_def isspace_def str_int_def digits.simps)
  have w: "\<forall>c \<in> set [10, 32, 160]. isspace c"
    by (simp add: isspace_def)
  from sentinels_absent t1 c1 have "normalize_cell (CStr (u ''N/a'')) = None" by blast
  moreover from sentinels_absent t2 c2 have "normalize_cell (CStr [8212]) = None" by blast
  moreover from sentinels_absent e have "normalize_cell (COther [32, 9]) = None" by blast
  moreover from sentinels_absent w have "normalize_cell (CStr [10, 32, 160]) = None" by blast
  moreover have "isspace 10 \<and> isspace 32 \<and> isspace 160" by (simp add: isspace_def)
  ultimately show ?thesis using t1 t2 c1 c2 e n by blast
qed

section \<open>The Field Grouper\<close>

lemma neat_normalize: "normalize_cell v = Some s \<Longrightarrow> neat s"
  unfolding neat_def normalize_cell_Some
  using tidy_clean [of "to_text v"] clean_hd_last [of "to_text v"] by auto

lemma valid_parts_eq: "valid_parts vs acc = acc @ List.map_filter normalize_cell vs"
  by (induction vs arbitrary: acc) (auto split: option.splits)

lemma map_filter_set: "s \<in> set (List.map_filter f xs) \<longleftrightarrow> (\<exists>x \<in> set xs. f x = Some s)"
  by (induction xs) (auto split: option.splits)

lemma map_filter_Nil: "List.map_filter f xs = [] \<longleftrightarrow> (\<forall>x \<in> set xs. f x = None)"
  by (induction xs) (auto split: option.splits)

lemma map_filter_map: "List.map_filter f (map g xs) = List.map_filter (\<lambda>x. f (g x)) xs"
  by (induction xs) (auto split: option.splits)

lemma kept_neat: "s \<in> set (List.map_filter normalize_cell vs) \<Longrightarrow> neat s"
  by (auto simp: map_filter_set neat_normalize)

lemma join_hd: "ps \<noteq> [] \<Longrightarrow> hd ps \<noteq> [] \<Longrightarrow> hd (hd ps) \<in> set (join sep ps)"
  by (induction sep ps rule: join.induct) auto

lemma join_survives:
  assumes "ps \<noteq> []" and "\<forall>p \<in> set ps. neat p"
  shows "strip (collapse_ws (join sep ps)) \<noteq> []"
proof -
  from assms have n: "neat (hd ps)" by simp
  then have "hd ps \<noteq> []" and nw: "\<not> isspace (hd (hd ps))" by (simp_all add: neat_def)
  with assms(1) have "hd (hd ps) \<in> set (join sep ps)" by (simp add: join_hd)
  with nw have "hd (hd ps) \<in> set (strip (collapse_ws (join sep ps)))"
    by (simp add: collapse_ws_keeps strip_keeps)
  then show ?thesis by auto
qed

lemma join_valid_eq:
  "join_valid vals sep =
     (let kept = List.map_filter normalize_cell vals
      in if kept = [] then None else Some (strip (collapse_ws (join sep kept))))"
proof (cases "List.map_filter normalize_cell vals = []")
  case True
  then show ?thesis by (simp add: join_valid_def valid_parts_eq)
next
  case False
  then have "strip (collapse_ws (join sep (List.map_filter normalize_cell vals))) \<noteq> []"
    by (intro join_survives ballI) (auto intro: kept_neat)
  with False show ?thesis by (simp add: join_valid_def valid_parts_eq Let_def)
qed

lemma get_group_unfold:
  "get_group ws row cols sep =
     (let kept = List.map_filter (\<lambda>c. normalize_cell (cell ws c row)) cols
      in if kept = [] then None else Some (strip (collapse_ws (join sep kept))))"
  by (simp add: get_group_def join_valid_eq map_filter_map)

lemma get_group_None:
  "get_group ws row cols sep = None \<longleftrightarrow> (\<forall>c \<in> set cols. normalize_cell (cell ws c row) = None)"
  by (simp add: get_group_unfold Let_def map_filter_Nil)

lemma well_shaped_join_valid: "join_valid vals sep = Some s \<Longrightarrow> well_shaped s"
proof -
  assume a: "join_valid vals sep = Some s"
  let ?j = "join sep (valid_parts vals [])"
  from a have s: "s = strip (collapse_ws ?j)" and ne: "s \<noteq> []"
    by (auto simp: join_valid_def Let_def split: if_splits)
  have t: "tidy s" unfolding s by (intro tidy_strip tidy_collapse_ws)
  from ne have "\<not> isspace (hd s)" and "\<not> isspace (last s)"
    unfolding s by (simp_all add: strip_hd strip_last)
  with t ne show ?thesis
    unfolding well_shaped_def using tidy_no_nl [of s] tidy_nth [of s] by blast
qed

lemma tidy_append_iff:
  "tidy (a @ b) \<longleftrightarrow>
     tidy a \<and> tidy b \<and> (a \<noteq> [] \<and> b \<noteq> [] \<and> isspace (last a) \<longrightarrow> \<not> isspace (hd b))"
proof (induction a)
  case Nil
  show ?case by simp
next
  case (Cons c cs)
  show ?case
  proof (cases cs)
    case Nil
    then show ?thesis by (cases b) (auto simp: tidy_Cons)
  next
    case (Cons d ds)
    with Cons.IH show ?thesis by (auto simp: tidy_Cons)
  qed
qed

lemma neat_join_space: "ps \<noteq> [] \<Longrightarrow> \<forall>p \<in> set ps. neat p \<Longrightarrow> neat (join [32] ps)"
proof (induction "[32::nat]" ps rule: join.induct)
  case 1
  then show ?case by simp
next
  case (2 p)
  then show ?case by simp
next
  case (3 p q ps)
  then have p: "neat p" and j: "neat (join [32] (q # ps))" by simp_all
  let ?j = "join [32] (q # ps)"
  from j have "tidy ([32] @ ?j)"
    by (subst tidy_append_iff) (simp add: neat_def)
  with p j have "tidy (p @ [32] @ ?j)"
    by (subst tidy_append_iff) (simp add: neat_def)
  moreover from p have "hd (p @ [32] @ ?j) = hd p" by (simp add: neat_def)
  moreover from j have "last (p @ [32] @ ?j) = last ?j" by (simp add: neat_def)
  ultimately show ?case using p j by (simp add: neat_def)
qed

lemma neat_clean_id: "neat s \<Longrightarrow> strip (collapse_ws s) = s"
  by (simp add: neat_def collapse_ws_tidy strip_id)

lemma join_length2: "32 \<in> set (join [32] (p # q # ps))"
  by simp

lemma sentinel_no_space: "is_sentinel s \<Longrightarrow> 32 \<notin> set s"
  using sentinel_no_ws [of s 32] isspace_32 by blast

lemma join_valid_not_sentinel:
  assumes "join_valid vals default_sep = Some s"
  shows "\<not> is_sentinel s"
proof -
  let ?ps = "List.map_filter normalize_cell vals"
  from assms have ne: "?ps \<noteq> []" and s: "s = strip (collapse_ws (join [32] ?ps))"
    by (auto simp: join_valid_eq Let_def default_sep_def split: if_splits)
  have all: "\<forall>p \<in> set ?ps. neat p" by (auto intro: kept_neat)
  with ne have "neat (join [32] ?ps)" by (rule neat_join_space)
  with s have s': "s = join [32] ?ps" by (simp add: neat_clean_id)
  show ?thesis
  proof (cases ?ps)
    case Nil
    with ne show ?thesis by simp
  next
    case (Cons p ps)
    show ?thesis
    proof (cases ps)
      case Nil
      with Cons s' have "s = p" by simp
      moreover from Cons have "p \<in> set ?ps" by simp
      then obtain v where "normalize_cell v = Some p" by (auto simp: map_filter_set)
      then have "lower p \<notin> EMPTY_TOKENS" by (auto simp: normalize_cell_Some)
      ultimately show ?thesis by (simp add: is_sentinel_lower)
    next
      case (Cons q qs)
      with \<open>?ps = p # ps\<close> s' have "32 \<in> set s" by simp
      then show ?thesis using sentinel_no_space by blast
    qed
  qed
qed


lemma join_Cons: "join sep (p # ps) = (if ps = [] then p else p @ sep @ join sep ps)"
  by (cases ps) simp_all

lemma split_words_nonempty: "w \<in> set (split_words s) \<Longrightarrow> w \<noteq> []"
  by (induction s rule: split_words.induct) (auto split: if_splits)

lemma join_eq_Nil: "[] \<notin> set ps \<Longrightarrow> join sep ps = [] \<longleftrightarrow> ps = []"
  by (cases ps) (auto simp: join_Cons)

lemma join_words_Nil: "join [32] (split_words s) = [] \<longleftrightarrow> split_words s = []"
  by (rule join_eq_Nil) (auto dest: split_words_nonempty)

lemma collapse_ws_prefix:
  "\<forall>x \<in> set w. \<not> isspace x \<Longrightarrow> collapse_ws (w @ r) = w @ collapse_ws r"
  by (induction w) simp_all

lemma strip_ws_Cons: "isspace c \<Longrightarrow> strip (c # s) = strip s"
  by (simp add: strip_def)

lemma strip_collapse_dropWhile:
  "strip (collapse_ws (dropWhile isspace s)) = strip (collapse_ws s)"
  by (cases s) (simp_all add: strip_ws_Cons isspace_32)

lemma strip_prefix:
  assumes "w \<noteq> []" and "\<forall>x \<in> set w. \<not> isspace x"
  shows "strip (w @ y) = w @ rev (dropWhile isspace (rev y))"
proof -
  from assms have h: "\<not> isspace (hd w)" and l: "\<not> isspace (last w)" by simp_all
  from assms(1) h have "dropWhile isspace (w @ y) = w @ y"
    by (cases w) simp_all
  moreover from assms(1) l have "dropWhile isspace (rev w) = rev w"
    by (simp add: dropWhile_eq_self_iff hd_rev)
  then have "dropWhile isspace (rev y @ rev w) = dropWhile isspace (rev y) @ rev w"
    by (simp add: dropWhile_append)
  ultimately show ?thesis by (simp add: strip_def)
qed

lemma rstrip_collapse:
  assumes "rest = [] \<or> isspace (hd rest)"
    and "strip (collapse_ws rest) = join [32] (split_words rest)"
  shows "rev (dropWhile isspace (rev (collapse_ws rest))) =
           (if split_words rest = [] then [] else 32 # join [32] (split_words rest))"
proof (cases rest)
  case Nil
  then show ?thesis by simp
next
  case (Cons d ds)
  with assms(1) have d: "isspace d" by simp
  let ?z = "collapse_ws (dropWhile isspace ds)"
  from Cons d have c: "collapse_ws rest = 32 # ?z" by simp
  with assms(2) have sz: "strip ?z = join [32] (split_words rest)"
    by (simp add: strip_ws_Cons isspace_32)
  show ?thesis
  proof (cases ?z)
    case Nil
    with sz have "join [32] (split_words rest) = []" by (simp add: strip_def)
    then have "split_words rest = []" by (simp only: join_words_Nil)
    with Nil c show ?thesis by (simp add: isspace_32)
  next
    case (Cons e es)
    then have e: "\<not> isspace e" by (rule collapse_ws_dropWhile_hd)
    with Cons have "e \<in> set (strip ?z)" by (simp add: strip_keeps)
    with sz have ne: "split_words rest \<noteq> []" by (auto simp: join_words_Nil [symmetric])
    from Cons e have "dropWhile isspace ?z = ?z" by simp
    then have "strip ?z = rev (dropWhile isspace (rev ?z))" by (simp add: strip_def)
    moreover from Cons e have "\<not> (\<forall>x \<in> set (rev ?z). isspace x)" by auto
    then have "dropWhile isspace (rev ?z @ [32]) = dropWhile isspace (rev ?z) @ [32]"
      by (simp only: dropWhile_append if_False)
    ultimately have "rev (dropWhile isspace (rev (32 # ?z))) = 32 # strip ?z" by simp
    with c sz ne show ?thesis by simp
  qed
qed

lemma strip_collapse_words: "strip (collapse_ws s) = join [32] (split_words s)"
proof (induction s rule: split_words.induct)
  case 1
  show ?case by (simp add: strip_def)
next
  case (2 c cs)
  show ?case
  proof (cases "isspace c")
    case True
    then have "strip (collapse_ws (c # cs)) = strip (collapse_ws (dropWhile isspace cs))"
      by (simp add: strip_ws_Cons isspace_32)
    also have "\<dots> = strip (collapse_ws cs)" by (rule strip_collapse_dropWhile)
    also from True have "\<dots> = join [32] (split_words cs)" by (rule "2.IH"(1))
    finally show ?thesis using True by simp
  next
    case False
    let ?w = "c # takeWhile (\<lambda>x. \<not> isspace x) cs"
    let ?rest = "dropWhile (\<lambda>x. \<not> isspace x) cs"
    have w: "\<forall>x \<in> set ?w. \<not> isspace x" using False by (auto dest: set_takeWhileD)
    have split: "c # cs = ?w @ ?rest" by simp
    have rest: "?rest = [] \<or> isspace (hd ?rest)"
      using hd_dropWhile [of "\<lambda>x. \<not> isspace x" cs] by auto
    from False have ih: "strip (collapse_ws ?rest) = join [32] (split_words ?rest)"
      by (rule "2.IH"(2))
    have "strip (collapse_ws (c # cs)) = strip (?w @ collapse_ws ?rest)"
      by (subst split) (simp only: collapse_ws_prefix [OF w])
    also have "\<dots> = ?w @ rev (dropWhile isspace (rev (collapse_ws ?rest)))"
      by (rule strip_prefix [OF _ w]) simp
    also have "\<dots> = ?w @ (if split_words ?rest = [] then []
                             else 32 # join [32] (split_words ?rest))"
      by (simp only: rstrip_collapse [OF rest ih])
    also have "\<dots> = join [32] (?w # split_words ?rest)" by (simp add: join_Cons)
    finally show ?thesis using False by simp
  qed
qed

lemma join_separated: "join sep ps = separated sep ps"
  by (induction sep ps rule: join.induct) (simp_all add: separated_def)

lemma get_group_eq: "get_group ws row cols sep = group_spec ws row cols sep"
  by (simp add: get_group_unfold group_spec_def collapsed_trimmed_def strip_collapse_words
      join_separated Let_def)


lemma join_valid_default:
  assumes "join_valid vals default_sep = Some s"
  shows "s = join [32] (List.map_filter normalize_cell vals)"
proof -
  let ?ps = "List.map_filter normalize_cell vals"
  from assms have ne: "?ps \<noteq> []" and s: "s = strip (collapse_ws (join [32] ?ps))"
    by (auto simp: join_valid_eq Let_def default_sep_def split: if_splits)
  have "\<forall>p \<in> set ?ps. neat p" by (auto intro: kept_neat)
  with ne have "neat (join [32] ?ps)" by (rule neat_join_space)
  with s show ?thesis by (simp add: neat_clean_id)
qed

text \<open>
  Claim C7. For every column list, row and separator, \<open>get_group\<close> is the Field Grouper of
  the specification: the normalised values that are not absent, in the order of the
  columns, with the separator between each two, and of that string the words with one
  space between each two, so that the result has no white space at either end and no two
  white space characters in a row. With the separator of the program the result is the kept
  values with one space between each two. The result is absent exactly when no value
  survives, so on the empty column list; and the columns H and I holding \<^verbatim>\<open>Rede\<close> and
  \<^verbatim>\<open>-\<close> give \<^verbatim>\<open>Rede\<close>.
\<close>

theorem group_joins_surviving_values:
  "get_group ws row cols sep = group_spec ws row cols sep \<and>
   (get_group ws row cols sep = None \<longleftrightarrow>
      (\<forall>c \<in> set cols. normalize_cell (cell ws c row) = None)) \<and>
   get_group ws row [] sep = None \<and>
   (get_group ws row cols sep = Some s \<longrightarrow> well_shaped s) \<and>
   (get_group ws row cols default_sep = Some s \<longrightarrow>
      s = separated [32] (List.map_filter (\<lambda>c. normalize_cell (cell ws c row)) cols)) \<and>
   (cell ws ''H'' row = CStr (u ''Rede'') \<and> cell ws ''I'' row = CStr (u ''-'') \<longrightarrow>
      get_group ws row [''H'', ''I''] sep = Some (u ''Rede''))"
proof (intro conjI impI)
  show "get_group ws row cols sep = group_spec ws row cols sep" by (rule get_group_eq)
  show "get_group ws row cols sep = None \<longleftrightarrow>
      (\<forall>c \<in> set cols. normalize_cell (cell ws c row) = None)" by (rule get_group_None)
  show "get_group ws row [] sep = None" by (simp add: get_group_None)
next
  assume "get_group ws row cols sep = Some s"
  then show "well_shaped s" unfolding get_group_def by (rule well_shaped_join_valid)
next
  assume "get_group ws row cols default_sep = Some s"
  then have "s = join [32] (List.map_filter normalize_cell (map (\<lambda>c. cell ws c row) cols))"
    unfolding get_group_def by (rule join_valid_default)
  then show "s = separated [32] (List.map_filter (\<lambda>c. normalize_cell (cell ws c row)) cols)"
    by (simp add: map_filter_map join_separated)
next
  assume a: "cell ws ''H'' row = CStr (u ''Rede'') \<and> cell ws ''I'' row = CStr (u ''-'')"
  have h: "normalize_cell (CStr (u ''Rede'')) = Some (u ''Rede'')"
    by (simp add: normalize_cell_def clean_def strip_def replace_char_def isspace_def
        lower_def lower_cp_def EMPTY_TOKENS_def u_def)
  have i: "normalize_cell (CStr (u ''-'')) = None"
    by (simp add: normalize_cell_def clean_def strip_def replace_char_def isspace_def
        lower_def lower_cp_def EMPTY_TOKENS_def u_def)
  have "strip (collapse_ws (u ''Rede'')) = u ''Rede''"
    by (simp add: strip_def isspace_def u_def)
  with a h i show "get_group ws row [''H'', ''I''] sep = Some (u ''Rede'')"
    by (simp add: get_group_unfold)
qed

theorem group_joins_surviving_values_witness:
  "cell sheet1 ''H'' 15 = CStr (u ''Rede'') \<and> cell sheet1 ''I'' 15 = CStr (u ''-'') \<and>
   get_group sheet1 15 [''H'', ''I''] default_sep = Some (u ''Rede'') \<and>
   normalize_cell (cell sheet1 ''E'' 15) = None \<and> normalize_cell (cell sheet1 ''F'' 15) = None \<and>
   get_group sheet1 15 [''E'', ''F''] default_sep = None \<and>
   cell sheet2 ''H'' 11 = CStr ([32, 32] @ u ''Rede'' @ [32, 10, 32] @ u ''externa'' @ [32]) \<and>
   cell sheet2 ''J'' 11 = CStr (u ''220'' @ [9] @ u ''V'') \<and>
   List.map_filter (\<lambda>c. normalize_cell (cell sheet2 c 11)) [''H'', ''I'', ''J''] =
     [u ''Rede externa'', u ''220 V''] \<and>
   get_group sheet2 11 [''H'', ''I'', ''J''] [32, 32, 47, 10] = Some (u ''Rede externa / 220 V'') \<and>
   well_shaped (u ''Rede externa / 220 V'') \<and>
   get_group sheet2 11 [''J'', ''I'', ''H''] default_sep = Some (u ''220 V Rede externa'')"
proof -
  have c: "cell sheet1 ''H'' 15 = CStr (u ''Rede'') \<and> cell sheet1 ''I'' 15 = CStr (u ''-'')"
    by (simp add: sheet1_def)
  have n: "normalize_cell (cell sheet1 ''E'' 15) = None \<and> normalize_cell (cell sheet1 ''F'' 15) = None"
    by (simp add: sheet1_def normalize_cell_def)
  have c2: "cell sheet2 ''H'' 11 = CStr ([32, 32] @ u ''Rede'' @ [32, 10, 32] @ u ''externa'' @ [32])"
    "cell sheet2 ''J'' 11 = CStr (u ''220'' @ [9] @ u ''V'')"
    by (simp_all add: sheet2_def)
  have k: "List.map_filter (\<lambda>c. normalize_cell (cell sheet2 c 11)) [''H'', ''I'', ''J''] =
     [u ''Rede externa'', u ''220 V'']"
    by (simp add: sheet2_def normalize_cell_def clean_def strip_def replace_char_def
        isspace_def lower_def lower_cp_def EMPTY_TOKENS_def u_def)
  have k': "List.map_filter (\<lambda>c. normalize_cell (cell sheet2 c 11)) [''J'', ''I'', ''H''] =
     [u ''220 V'', u ''Rede externa'']"
    by (simp add: sheet2_def normalize_cell_def clean_def strip_def replace_char_def
        isspace_def lower_def lower_cp_def EMPTY_TOKENS_def u_def)
  have g: "group_spec sheet2 11 [''H'', ''I'', ''J''] [32, 32, 47, 10] =
      Some (u ''Rede externa / 220 V'')"
    by (simp only: group_spec_def k Let_def)
       (simp add: collapsed_trimmed_def separated_def isspace_def u_def)
  have g': "group_spec sheet2 11 [''J'', ''I'', ''H''] default_sep \<noteq> None"
    by (simp only: group_spec_def k' Let_def) simp
  from c group_joins_surviving_values [of sheet1 15 "[''H'', ''I'']" default_sep]
  have "get_group sheet1 15 [''H'', ''I''] default_sep = Some (u ''Rede'')" by blast
  moreover have "get_group sheet1 15 [''E'', ''F''] default_sep = None \<longleftrightarrow>
      (\<forall>c \<in> set [''E'', ''F'']. normalize_cell (cell sheet1 c 15) = None)"
    using group_joins_surviving_values [of sheet1 15 "[''E'', ''F'']" default_sep] by blast
  with n have "get_group sheet1 15 [''E'', ''F''] default_sep = None" by simp
  moreover have e: "get_group sheet2 11 [''H'', ''I'', ''J''] [32, 32, 47, 10] =
      Some (u ''Rede externa / 220 V'')"
    using group_joins_surviving_values [of sheet2 11 "[''H'', ''I'', ''J'']" "[32, 32, 47, 10]"] g
    by simp
  moreover from e have "well_shaped (u ''Rede externa / 220 V'')"
    using group_joins_surviving_values [of sheet2 11 "[''H'', ''I'', ''J'']" "[32, 32, 47, 10]"
        "u ''Rede externa / 220 V''"]
    by blast
  moreover have "get_group sheet2 11 [''J'', ''I'', ''H''] default_sep = Some (u ''220 V Rede externa'')"
  proof -
    note inst = group_joins_surviving_values [of sheet2 11 "[''J'', ''I'', ''H'']" default_sep]
    from inst g' obtain s where s: "get_group sheet2 11 [''J'', ''I'', ''H''] default_sep = Some s"
      by (cases "get_group sheet2 11 [''J'', ''I'', ''H''] default_sep") auto
    with group_joins_surviving_values [of sheet2 11 "[''J'', ''I'', ''H'']" default_sep s]
    have "s = separated [32]
        (List.map_filter (\<lambda>c. normalize_cell (cell sheet2 c 11)) [''J'', ''I'', ''H''])"
      by blast
    then have "s = separated [32] [u ''220 V'', u ''Rede externa'']" by (simp only: k')
    then have "s = u ''220 V Rede externa''" by (simp add: separated_def u_def)
    with s show ?thesis by simp
  qed
  ultimately show ?thesis using c n c2 k by blast
qed

section \<open>Numbers\<close>

lemma digits_set: "c \<in> set (digits n) \<Longrightarrow> 48 \<le> c \<and> c \<le> 57"
proof (induction n arbitrary: c rule: digits.induct)
  case (1 n)
  show ?case
  proof (cases "n < 10")
    case True
    with "1.prems" show ?thesis by (subst (asm) digits.simps) simp
  next
    case False
    with "1.prems" have "c \<in> set (digits (n div 10)) \<or> c = 48 + n mod 10"
      by (subst (asm) digits.simps) auto
    moreover have "n mod 10 < 10" by simp
    ultimately show ?thesis using "1.IH" [OF False] by auto
  qed
qed

lemma digits_last: "digits n \<noteq> [] \<and> last (digits n) = 48 + n mod 10"
  by (subst digits.simps, subst (2) digits.simps) simp

lemma str_int_set: "c \<in> set (str_int i) \<Longrightarrow> c = 45 \<or> (48 \<le> c \<and> c \<le> 57)"
  by (auto simp: str_int_def dest: digits_set split: if_splits)

lemma str_int_last: "str_int i \<noteq> [] \<and> 48 \<le> last (str_int i) \<and> last (str_int i) \<le> 57"
proof -
  have "last (digits n) \<le> 57" for n
    using digits_last [of n] by (simp add: less_Suc_eq_le [symmetric])
  then show ?thesis by (simp add: str_int_def digits_last)
qed

lemma str_int_no_ws: "c \<in> set (str_int i) \<Longrightarrow> \<not> isspace c"
  by (auto dest!: str_int_set simp: isspace_def)

lemma str_int_lower: "lower (str_int i) = str_int i"
  unfolding lower_def by (rule map_idI) (auto dest!: str_int_set simp: lower_cp_def)

lemma token_last: "t \<in> EMPTY_TOKENS \<Longrightarrow> \<not> (48 \<le> last t \<and> last t \<le> 57)"
  by (auto simp: EMPTY_TOKENS_def u_def)

lemma normalize_str_int: "clean (str_int i) = str_int i \<and> str_int i \<noteq> [] \<and> lower (str_int i) \<notin> EMPTY_TOKENS"
proof -
  have "clean (str_int i) = str_int i"
    by (rule no_ws_clean) (auto dest: str_int_no_ws)
  moreover have "lower (str_int i) \<notin> EMPTY_TOKENS"
    using token_last [of "str_int i"] str_int_last [of i] by (auto simp: str_int_lower)
  ultimately show ?thesis by (simp add: str_int_last)
qed

lemma is_integer_value: "is_integer x \<Longrightarrow> float_value x = Some (of_int (int_of_float x))"
proof (cases x)
  case (Finite m e)
  assume i: "is_integer x"
  show ?thesis
  proof (cases "0 \<le> e")
    case True
    with Finite show ?thesis by simp
  next
    case False
    let ?p = "(2::int) ^ nat (- e)"
    from i Finite False have "?p dvd m" by (simp add: dvd_eq_mod_eq_0)
    then obtain q where q: "m = ?p * q" by (auto simp: dvd_def)
    have p: "?p > 0" by simp
    have "int_of_float x = q"
    proof (cases "0 \<le> m")
      case True
      with Finite False q p show ?thesis by simp
    next
      case False
      have "- m = ?p * (- q)" by (simp add: q)
      then have "(- m) div ?p = - q" using p by (metis nonzero_mult_div_cancel_left less_irrefl)
      with Finite \<open>\<not> 0 \<le> e\<close> False show ?thesis by simp
    qed
    moreover have "(of_int m :: rat) / of_int ?p = of_int q"
      using p by (simp add: q)
    ultimately show ?thesis using Finite False by simp
  qed
qed simp_all

lemma value_is_integer: "float_value x = Some (of_int k) \<Longrightarrow> is_integer x"
proof (cases x)
  case (Finite m e)
  assume v: "float_value x = Some (of_int k)"
  show ?thesis
  proof (cases "0 \<le> e")
    case True
    with Finite show ?thesis by simp
  next
    case False
    let ?p = "(2::int) ^ nat (- e)"
    have p: "(of_int ?p :: rat) \<noteq> 0" by simp
    from v Finite False have "(of_int m :: rat) / of_int ?p = of_int k" by simp
    with p have "(of_int m :: rat) = of_int k * of_int ?p" by (simp add: field_simps)
    then have "(of_int m :: rat) = of_int (k * ?p)" by simp
    then have "m = k * ?p" by (simp only: of_int_eq_iff)
    with Finite False show ?thesis by simp
  qed
qed simp_all

lemma value_int_of_float: "float_value x = Some (of_int k) \<Longrightarrow> int_of_float x = k"
proof -
  assume v: "float_value x = Some (of_int k)"
  then have "is_integer x" by (rule value_is_integer)
  then have "float_value x = Some (of_int (int_of_float x))" by (rule is_integer_value)
  with v have "(of_int (int_of_float x) :: rat) = of_int k" by simp
  then show ?thesis by (simp only: of_int_eq_iff)
qed

text \<open>
  Claim C8. An integer is rendered as its decimal text, and so is a float whose value is
  mathematically an integer \<open>k\<close> (as the text of \<open>k\<close>); that text has no decimal point
  (code point 46) and is what \<open>normalize_cell\<close> returns, the cleanup leaving it
  unchanged. A float whose value is not an integer is rendered as its default text and
  then cleaned like that string.
\<close>

theorem whole_numbers_without_point:
  "to_text (CInt n) = str_int n \<and> normalize_cell (CInt n) = Some (str_int n) \<and>
   (float_value x = Some (of_int k) \<longrightarrow>
      to_text (CFloat x t) = str_int k \<and> normalize_cell (CFloat x t) = Some (str_int k)) \<and>
   46 \<notin> set (str_int k) \<and>
   ((\<forall>j. float_value x \<noteq> Some (of_int j)) \<longrightarrow>
      to_text (CFloat x t) = t \<and> normalize_cell (CFloat x t) = normalize_cell (CStr t))"
proof (intro conjI impI)
  show "to_text (CInt n) = str_int n" by simp
  show "normalize_cell (CInt n) = Some (str_int n)"
    using normalize_str_int [of n] by (simp add: normalize_cell_def)
  show "46 \<notin> set (str_int k)" using str_int_set [of 46 k] by auto
next
  assume v: "float_value x = Some (of_int k)"
  then have "is_integer x" and "int_of_float x = k"
    by (simp_all add: value_is_integer value_int_of_float)
  then show "to_text (CFloat x t) = str_int k" by simp
  then show "normalize_cell (CFloat x t) = Some (str_int k)"
    using normalize_str_int [of k] by (simp add: normalize_cell_def)
next
  assume "\<forall>j. float_value x \<noteq> Some (of_int j)"
  then have "\<not> is_integer x" using is_integer_value [of x] by auto
  then show "to_text (CFloat x t) = t" by simp
  then show "normalize_cell (CFloat x t) = normalize_cell (CStr t)"
    by (simp add: normalize_cell_def)
qed


theorem whole_numbers_without_point_witness:
  "float_value (Finite 4 (- 1)) = Some (of_int 2) \<and>
   to_text (CFloat (Finite 4 (- 1)) (u ''2.0'')) = str_int 2 \<and>
   normalize_cell (CFloat (Finite 4 (- 1)) (u ''2.0'')) = Some (u ''2'') \<and>
   normalize_cell (CInt (- 120)) = Some (u ''-120'') \<and>
   (\<forall>j. float_value (Finite 5 (- 1)) \<noteq> Some (of_int j)) \<and>
   to_text (CFloat (Finite 5 (- 1)) (u ''2.5'')) = u ''2.5'' \<and>
   normalize_cell (CFloat (Finite 5 (- 1)) (u ''2.5'')) = Some (u ''2.5'')"
proof -
  have v: "float_value (Finite 4 (- 1)) = Some (of_int 2)" by simp
  have n: "\<forall>j. float_value (Finite 5 (- 1)) \<noteq> Some (of_int j)"
  proof
    fix j
    have "\<not> is_integer (Finite 5 (- 1))" by simp
    then show "float_value (Finite 5 (- 1)) \<noteq> Some (of_int j)"
      using value_is_integer [of "Finite 5 (- 1)" j] by blast
  qed
  have s2: "str_int 2 = u ''2''" and s120: "str_int (- 120) = u ''-120''"
    by (simp_all add: str_int_def digits.simps u_def)
  have c: "normalize_cell (CStr (u ''2.5'')) = Some (u ''2.5'')"
    by (simp add: normalize_cell_def clean_def strip_def replace_char_def isspace_def
        lower_def lower_cp_def EMPTY_TOKENS_def u_def)
  note thm1 = whole_numbers_without_point [of "- 120" "Finite 4 (- 1)" 2 "u ''2.0''"]
  note thm2 = whole_numbers_without_point [of 0 "Finite 5 (- 1)" 0 "u ''2.5''"]
  from thm1 v have "to_text (CFloat (Finite 4 (- 1)) (u ''2.0'')) = str_int 2"
    and "normalize_cell (CFloat (Finite 4 (- 1)) (u ''2.0'')) = Some (u ''2'')"
    and "normalize_cell (CInt (- 120)) = Some (u ''-120'')"
    by (simp_all only: s2 s120 simp_thms)
  moreover from thm2 n c have "to_text (CFloat (Finite 5 (- 1)) (u ''2.5'')) = u ''2.5''"
    and "normalize_cell (CFloat (Finite 5 (- 1)) (u ''2.5'')) = Some (u ''2.5'')"
    by simp_all
  ultimately show ?thesis using v n by blast
qed

section \<open>The Worksheet Extractor\<close>

lemma any_data_iff:
  "any_data ws row cols \<longleftrightarrow> (\<exists>c \<in> set cols. normalize_cell (cell ws c row) \<noteq> None)"
  by (induction cols) (auto split: option.splits)

lemma set_ALL_RELEVANT_COLS:
  "set ALL_RELEVANT_COLS =
     set COLS_EQUIP_TAG \<union> set COLS_EQUIP_DESC \<union> set COLS_FONTE_TAG \<union> set COLS_FONTE_DESC \<union>
     set COLS_COMO_BLOQUEAR \<union> set COLS_ONDE_BLOQUEAR \<union> set COLS_TIPO_BLOQUEIO \<union>
     set COLS_COMO_DESBLOQUEAR"
  by (simp add: ALL_RELEVANT_COLS_def Un_assoc)

lemma row_has_any_data_iff:
  "row_has_any_data ws row \<longleftrightarrow>
     (\<exists>cols \<in> set ([COLS_EQUIP_TAG, COLS_EQUIP_DESC] @ SOURCE_COLS).
        get_group ws row cols default_sep \<noteq> None)"
  unfolding row_has_any_data_def any_data_iff set_ALL_RELEVANT_COLS SOURCE_COLS_def
  by (simp add: get_group_None) blast

lemma row_source_info_data: "row_source_info ws r \<Longrightarrow> row_has_any_data ws r"
  by (auto simp: row_has_any_data_iff row_source_info_def list_ex_iff)

lemma no_data_equip:
  "\<not> row_has_any_data ws r \<Longrightarrow>
     get_group ws r COLS_EQUIP_TAG default_sep = None \<and>
     get_group ws r COLS_EQUIP_DESC default_sep = None"
  by (simp add: row_has_any_data_iff)

lemma has_source_info_row_record:
  "has_source_info (row_record ws src start r) \<longleftrightarrow> row_source_info ws r"
  by (simp add: has_source_info_def row_record_def row_source_info_def SOURCE_COLS_def)

lemma fill_down_most_recent:
  assumes "start \<le> a"
    and "l = (if a \<le> start then None else most_recent ws cols start (a - 1))"
  shows "fill_down (get_group ws a cols default_sep) l =
           (most_recent ws cols start a, most_recent ws cols start a)"
  using assms by (subst (1 2) most_recent.simps) (simp add: fill_down_def split: option.splits)

lemma most_recent_no_value:
  assumes "get_group ws a cols default_sep = None"
  shows "most_recent ws cols start a =
           (if a \<le> start then None else most_recent ws cols start (a - 1))"
  using assms by (subst most_recent.simps) simp

lemma process_rows_step:
  assumes "start \<le> a"
    and "last_equip_tag st =
           (if a \<le> start then None else most_recent ws COLS_EQUIP_TAG start (a - 1))"
    and "last_equip_desc st =
           (if a \<le> start then None else most_recent ws COLS_EQUIP_DESC start (a - 1))"
    and "\<not> row_has_footer_marker ws a"
  shows "\<exists>st'. process_rows ws src (a # rs) st = process_rows ws src rs st' \<and>
           records st' =
             records st @ (if row_source_info ws a then [row_record ws src start a] else []) \<and>
           last_equip_tag st' = most_recent ws COLS_EQUIP_TAG start a \<and>
           last_equip_desc st' = most_recent ws COLS_EQUIP_DESC start a"
proof (cases "row_has_any_data ws a")
  case False
  then have "\<not> row_source_info ws a" using row_source_info_data by blast
  moreover from False assms(2)
  have "last_equip_tag st = most_recent ws COLS_EQUIP_TAG start a"
    by (simp add: no_data_equip most_recent_no_value)
  moreover from False assms(3)
  have "last_equip_desc st = most_recent ws COLS_EQUIP_DESC start a"
    by (simp add: no_data_equip most_recent_no_value)
  ultimately show ?thesis using False assms(4) by (intro exI [of _ st]) simp
next
  case True
  note t = fill_down_most_recent [OF assms(1) assms(2)]
  note d = fill_down_most_recent [OF assms(1) assms(3)]
  let ?rec = "row_record ws src start a"
  let ?st' = "st\<lparr>last_equip_tag := most_recent ws COLS_EQUIP_TAG start a,
                   last_equip_desc := most_recent ws COLS_EQUIP_DESC start a\<rparr>"
  have step: "process_rows ws src (a # rs) st =
      (if \<not> has_source_info ?rec then process_rows ws src rs ?st'
       else process_rows ws src rs (?st'\<lparr>records := records ?st' @ [?rec]\<rparr>))"
    using True assms(4) by (simp add: t d row_record_def)
  show ?thesis
  proof (cases "row_source_info ws a")
    case True
    with step show ?thesis
      by (intro exI [of _ "?st'\<lparr>records := records ?st' @ [?rec]\<rparr>"])
         (simp add: has_source_info_row_record)
  next
    case False
    with step show ?thesis
      by (intro exI [of _ ?st']) (simp add: has_source_info_row_record)
  qed
qed

lemma process_rows_interval:
  assumes "start \<le> a"
    and "last_equip_tag st =
           (if a \<le> start then None else most_recent ws COLS_EQUIP_TAG start (a - 1))"
    and "last_equip_desc st =
           (if a \<le> start then None else most_recent ws COLS_EQUIP_DESC start (a - 1))"
  shows "records (process_rows ws src [a ..< b] st) =
           records st @ map (row_record ws src start)
             (filter (row_source_info ws)
                (takeWhile (\<lambda>r. \<not> row_has_footer_marker ws r) [a ..< b]))"
  using assms
proof (induction "b - a" arbitrary: a st)
  case 0
  then show ?case by simp
next
  case (Suc n)
  then have ab: "a < b" and upt: "[a ..< b] = a # [Suc a ..< b]" by (auto simp: upt_conv_Cons)
  show ?case
  proof (cases "row_has_footer_marker ws a")
    case True
    then show ?thesis by (simp add: upt)
  next
    case False
    from process_rows_step [OF Suc.prems(1) Suc.prems(2) Suc.prems(3) False, of src "[Suc a ..< b]"]
    obtain st' where run: "process_rows ws src (a # [Suc a ..< b]) st = process_rows ws src [Suc a ..< b] st'"
      and recs: "records st' =
             records st @ (if row_source_info ws a then [row_record ws src start a] else [])"
      and tag: "last_equip_tag st' = most_recent ws COLS_EQUIP_TAG start a"
      and desc: "last_equip_desc st' = most_recent ws COLS_EQUIP_DESC start a"
      by blast
    from Suc.hyps(2) have n: "n = b - Suc a" by simp
    from Suc.prems(1) have s: "start \<le> Suc a" and ns: "\<not> Suc a \<le> start" by simp_all
    have "records (process_rows ws src [Suc a ..< b] st') =
           records st' @ map (row_record ws src start)
             (filter (row_source_info ws)
                (takeWhile (\<lambda>r. \<not> row_has_footer_marker ws r) [Suc a ..< b]))"
      by (rule Suc.hyps(1) [OF n s]) (simp_all add: ns tag desc)
    with run recs False show ?thesis by (simp add: upt)
  qed
qed

lemma process_sheet_eq:
  "process_sheet start ws src = map (row_record ws src start) (record_rows start ws)"
proof -
  let ?st = "\<lparr>records = [], last_equip_tag = None, last_equip_desc = None\<rparr>"
  have "records (process_rows ws src [start ..< last_row start ws + 1] ?st) =
      records ?st @ map (row_record ws src start)
        (filter (row_source_info ws)
           (takeWhile (\<lambda>r. \<not> row_has_footer_marker ws r) [start ..< last_row start ws + 1]))"
    by (rule process_rows_interval) simp_all
  then show ?thesis
    by (simp add: process_sheet_def record_rows_def data_rows_def last_row_def Let_def)
qed

lemma data_rows_first_footer:
  assumes "start \<le> r" and "r \<le> last_row start ws" and "row_has_footer_marker ws r"
    and "\<forall>r'. start \<le> r' \<and> r' < r \<longrightarrow> \<not> row_has_footer_marker ws r'"
  shows "data_rows start ws = [start ..< r]"
proof -
  let ?n = "last_row start ws + 1"
  from assms(1) have e1: "[start ..< r + (?n - r)] = [start ..< r] @ [r ..< r + (?n - r)]"
    by (rule upt_add_eq_append)
  from assms(2) have e2: "r + (?n - r) = ?n" and "r < ?n" by simp_all
  then have e3: "[r ..< ?n] = r # [Suc r ..< ?n]" by (intro upt_conv_Cons)
  from e1 have "[start ..< ?n] = [start ..< r] @ r # [Suc r ..< ?n]"
    by (simp only: e2 e3)
  then have "data_rows start ws = takeWhile (\<lambda>r. \<not> row_has_footer_marker ws r) [start ..< r]"
    using assms(3) by (simp add: data_rows_def takeWhile_tail del: upt_Suc)
  also have "\<dots> = [start ..< r]" using assms(4) by simp
  finally show ?thesis .
qed

lemma data_rows_sorted: "sorted_wrt (<) (data_rows start ws)"
  unfolding data_rows_def by (intro sorted_wrt_takeWhile sorted_wrt_upt)

lemma data_rows_range: "r \<in> set (data_rows start ws) \<Longrightarrow> start \<le> r \<and> r \<le> last_row start ws"
proof -
  assume "r \<in> set (data_rows start ws)"
  then have "r \<in> set [start ..< last_row start ws + 1]"
    unfolding data_rows_def by (rule set_takeWhileD [THEN conjunct1])
  then show ?thesis by (simp del: upt_Suc)
qed

lemma footer_texts_cong:
  "(\<And>c. cell ws' c r = cell ws c r) \<Longrightarrow> footer_texts ws' r cols acc = footer_texts ws r cols acc"
  by (induction cols arbitrary: acc) (simp_all split: option.splits)

lemma footer_cong:
  "(\<And>c. cell ws' c r = cell ws c r) \<Longrightarrow> row_has_footer_marker ws' r = row_has_footer_marker ws r"
  by (simp add: row_has_footer_marker_def footer_texts_cong [of ws' r ws])

lemma get_group_cong:
  "(\<And>c. cell ws' c r = cell ws c r) \<Longrightarrow> get_group ws' r cols sep = get_group ws r cols sep"
  by (simp add: get_group_def)

lemma most_recent_0:
  "most_recent ws cols start 0 = get_group ws 0 cols default_sep"
  by (subst most_recent.simps) (simp split: option.split)

lemma most_recent_Suc:
  "most_recent ws cols start (Suc r) =
     (case get_group ws (Suc r) cols default_sep of
        Some x \<Rightarrow> Some x
      | None \<Rightarrow> if Suc r \<le> start then None else most_recent ws cols start r)"
  by (subst most_recent.simps) (simp split: option.split)

lemma most_recent_cong:
  "(\<And>c q. q \<le> r \<Longrightarrow> cell ws' c q = cell ws c q) \<Longrightarrow>
     most_recent ws' cols start r = most_recent ws cols start r"
proof (induction r)
  case 0
  have "get_group ws' 0 cols default_sep = get_group ws 0 cols default_sep"
    by (rule get_group_cong) (rule 0, rule order_refl)
  then show ?case by (simp only: most_recent_0)
next
  case (Suc r)
  have ih: "most_recent ws' cols start r = most_recent ws cols start r"
  proof (rule Suc.IH)
    fix c q :: nat and c' :: string
    assume "q \<le> r"
    then have "q \<le> Suc r" by simp
    then show "cell ws' c' q = cell ws c' q" by (rule Suc.prems)
  qed
  have g: "get_group ws' (Suc r) cols default_sep = get_group ws (Suc r) cols default_sep"
    by (rule get_group_cong) (rule Suc.prems, rule order_refl)
  show ?case by (simp only: most_recent_Suc ih g)
qed

lemma row_record_cong:
  assumes "\<And>c q. q \<le> r \<Longrightarrow> cell ws' c q = cell ws c q"
  shows "row_record ws' src start r = row_record ws src start r"
proof -
  have m: "most_recent ws' cols start r = most_recent ws cols start r" for cols
    by (rule most_recent_cong) (rule assms)
  have g: "get_group ws' r cols default_sep = get_group ws r cols default_sep" for cols
    by (rule get_group_cong) (rule assms, rule order_refl)
  show ?thesis by (simp only: row_record_def m g)
qed

lemma row_source_info_cong:
  assumes "\<And>c. cell ws' c r = cell ws c r"
  shows "row_source_info ws' r = row_source_info ws r"
proof -
  have g: "get_group ws' r cols default_sep = get_group ws r cols default_sep" for cols
    by (rule get_group_cong) (rule assms)
  show ?thesis by (simp only: row_source_info_def g)
qed


lemma most_recent_here:
  "get_group ws r cols default_sep = Some x \<Longrightarrow> most_recent ws cols start r = Some x"
  by (subst most_recent.simps) simp

lemma most_recent_inherited:
  assumes "start \<le> r'" and "r' \<le> r" and "get_group ws r' cols default_sep = Some x"
    and "\<forall>q. r' < q \<and> q \<le> r \<longrightarrow> get_group ws q cols default_sep = None"
  shows "most_recent ws cols start r = Some x"
  using assms(2,4)
proof (induction r)
  case 0
  with assms(3) show ?case by (simp add: most_recent_here)
next
  case (Suc r)
  show ?case
  proof (cases "r' = Suc r")
    case True
    with assms(3) show ?thesis by (simp add: most_recent_here)
  next
    case False
    with Suc.prems have le: "r' \<le> r" and none: "get_group ws (Suc r) cols default_sep = None"
      by simp_all
    from Suc.prems have "\<forall>q. r' < q \<and> q \<le> r \<longrightarrow> get_group ws q cols default_sep = None" by simp
    with le have "most_recent ws cols start r = Some x" by (rule Suc.IH)
    moreover from le assms(1) have "\<not> Suc r \<le> start" by simp
    ultimately show ?thesis using none by (simp add: most_recent_Suc)
  qed
qed

lemma most_recent_never:
  assumes "start \<le> r"
    and "\<forall>q. start \<le> q \<and> q \<le> r \<longrightarrow> get_group ws q cols default_sep = None"
  shows "most_recent ws cols start r = None"
  using assms
proof (induction r)
  case 0
  then show ?case by (simp add: most_recent_0)
next
  case (Suc r)
  show ?case
  proof (cases "start = Suc r")
    case True
    with Suc.prems show ?thesis by (simp add: most_recent_Suc)
  next
    case False
    with Suc.prems have "start \<le> r" by simp
    moreover from Suc.prems have "\<forall>q. start \<le> q \<and> q \<le> r \<longrightarrow> get_group ws q cols default_sep = None"
      by simp
    ultimately have "most_recent ws cols start r = None" by (rule Suc.IH)
    with Suc.prems show ?thesis by (simp add: most_recent_Suc)
  qed
qed

lemma most_recent_origin:
  "most_recent ws cols start r = Some s \<Longrightarrow> \<exists>q. get_group ws q cols default_sep = Some s"
proof (induction r)
  case 0
  then show ?case by (auto simp: most_recent_0)
next
  case (Suc r)
  show ?case
  proof (cases "get_group ws (Suc r) cols default_sep")
    case None
    with Suc.prems have "most_recent ws cols start r = Some s"
      by (simp add: most_recent_Suc split: if_splits)
    then show ?thesis by (rule Suc.IH)
  next
    case (Some x)
    with Suc.prems have "x = s" by (simp add: most_recent_Suc)
    with Some show ?thesis by blast
  qed
qed

text \<open>The example sheet, evaluated.\<close>

lemmas eval_defs = sheet1_def normalize_cell_def clean_def strip_def replace_char_def
  isspace_def lower_def lower_cp_def EMPTY_TOKENS_def u_def str_int_def digits.simps

lemma sheet1_footer:
  "row_has_footer_marker sheet1 16"
  "\<not> row_has_footer_marker sheet1 11"
  "\<not> row_has_footer_marker sheet1 12"
  "\<not> row_has_footer_marker sheet1 13"
  "\<not> row_has_footer_marker sheet1 14"
  "\<not> row_has_footer_marker sheet1 15"
  by (simp_all add: row_has_footer_marker_def check_cols_def FOOTER_KEYWORDS_def
      upper_def upper_cp_def eval_defs)

lemma sheet1_source_info:
  "row_source_info sheet1 11" "\<not> row_source_info sheet1 12" "row_source_info sheet1 13"
  "\<not> row_source_info sheet1 14" "row_source_info sheet1 15" "row_source_info sheet1 17"
  by (simp_all add: row_source_info_def SOURCE_COLS_def get_group_None
      COLS_FONTE_TAG_def COLS_FONTE_DESC_def COLS_COMO_BLOQUEAR_def COLS_ONDE_BLOQUEAR_def
      COLS_TIPO_BLOQUEIO_def COLS_COMO_DESBLOQUEAR_def eval_defs)


text \<open>The footer test.\<close>

lemma starts_with_append_sep:
  "set k \<inter> set sep = {} \<Longrightarrow> sep \<noteq> [] \<Longrightarrow> starts_with k (x @ sep @ y) = starts_with k x"
proof (induction x arbitrary: k)
  case Nil
  then show ?case by (cases k; cases sep) auto
next
  case (Cons c cs)
  show ?case
  proof (cases k)
    case Nil
    then show ?thesis by simp
  next
    case (Cons k0 ks)
    with Cons.prems have "set ks \<inter> set sep = {}" by auto
    with Cons.prems have "starts_with ks (cs @ sep @ y) = starts_with ks cs" by (intro Cons.IH)
    with Cons show ?thesis by simp
  qed
qed

lemma contains_skip:
  "k \<noteq> [] \<Longrightarrow> set k \<inter> set s = {} \<Longrightarrow> contains k (s @ y) = contains k y"
proof (induction s)
  case Nil
  show ?case by simp
next
  case (Cons d ds)
  then have "\<not> starts_with k (d # ds @ y)" by (cases k) auto
  with Cons show ?case by simp
qed

lemma contains_Nil: "contains k [] \<longleftrightarrow> k = []"
  by simp

lemma contains_append_sep:
  assumes "k \<noteq> []" and "set k \<inter> set sep = {}" and "sep \<noteq> []"
  shows "contains k (x @ sep @ y) \<longleftrightarrow> contains k x \<or> contains k y"
proof (induction x)
  case Nil
  from assms show ?case by (simp add: contains_skip)
next
  case (Cons c cs)
  have "starts_with k ((c # cs) @ sep @ y) = starts_with k (c # cs)"
    using assms(2,3) by (rule starts_with_append_sep)
  with Cons show ?case by auto
qed

lemma contains_join:
  assumes "k \<noteq> []" and "set k \<inter> set sep = {}" and "sep \<noteq> []"
  shows "contains k (join sep ts) \<longleftrightarrow> (\<exists>t \<in> set ts. contains k t)"
proof (induction ts)
  case Nil
  from assms(1) show ?case by simp
next
  case (Cons p ps)
  show ?case
  proof (cases ps)
    case Nil
    then show ?thesis by simp
  next
    case (Cons q qs)
    then have "join sep (p # ps) = p @ sep @ join sep ps" by simp
    with Cons.IH show ?thesis by (simp only: contains_append_sep [OF assms]) simp
  qed
qed


lemma footer_texts_eq:
  "footer_texts ws r cols acc =
     acc @ map upper (List.map_filter (\<lambda>c. normalize_cell (cell ws c r)) cols)"
proof (induction cols arbitrary: acc)
  case Nil
  show ?case by simp
next
  case (Cons c cs)
  show ?case
  proof (cases "normalize_cell (cell ws c r)")
    case None
    then show ?thesis by (simp add: Cons.IH)
  next
    case (Some v)
    then have "v \<noteq> []" by (auto simp: normalize_cell_Some)
    with Some show ?thesis by (simp add: Cons.IH)
  qed
qed

lemma keyword_separate:
  "k \<in> set FOOTER_KEYWORDS \<Longrightarrow> k \<noteq> [] \<and> set k \<inter> set (u '' | '') = {}"
  by (auto simp: FOOTER_KEYWORDS_def u_def)

lemma is_footer_iff:
  "is_footer ws r \<longleftrightarrow>
     (\<exists>c \<in> set check_cols. \<exists>v. normalize_cell (cell ws c r) = Some v \<and>
        (\<exists>k \<in> set FOOTER_KEYWORDS. contains k (upper v)))"
  unfolding is_footer_def list_ex_iff
  by (intro bex_cong refl) (simp split: option.split)

lemma footer_iff: "row_has_footer_marker ws r \<longleftrightarrow> is_footer ws r"
proof -
  let ?kept = "List.map_filter (\<lambda>c. normalize_cell (cell ws c r)) check_cols"
  have sep: "u '' | '' \<noteq> []" by (simp add: u_def)
  have "row_has_footer_marker ws r \<longleftrightarrow>
      (\<exists>k \<in> set FOOTER_KEYWORDS. contains k (join (u '' | '') (map upper ?kept)))"
  proof (cases "?kept = []")
    case True
    then show ?thesis
      using keyword_separate by (auto simp: row_has_footer_marker_def footer_texts_eq)
  next
    case False
    then show ?thesis
      by (simp add: row_has_footer_marker_def footer_texts_eq list_ex_iff)
  qed
  also have "\<dots> \<longleftrightarrow> (\<exists>k \<in> set FOOTER_KEYWORDS. \<exists>v \<in> set ?kept. contains k (upper v))"
  proof -
    have "contains k (join (u '' | '') (map upper ?kept)) \<longleftrightarrow>
        (\<exists>v \<in> set ?kept. contains k (upper v))" if "k \<in> set FOOTER_KEYWORDS" for k
      using keyword_separate [OF that] sep
      by (simp add: contains_join del: contains.simps)
    then show ?thesis by blast
  qed
  also have "\<dots> \<longleftrightarrow> is_footer ws r"
    unfolding is_footer_iff
    using map_filter_set [of _ "\<lambda>c. normalize_cell (cell ws c r)" check_cols] by blast
  finally show ?thesis .
qed

lemma sheet3_footer:
  "\<not> row_has_footer_marker sheet3 11" "row_has_footer_marker sheet3 12"
  by (simp_all add: row_has_footer_marker_def check_cols_def FOOTER_KEYWORDS_def
      upper_def upper_cp_def UPPER_SPECIAL_def UPPER_RANGES_def sheet3_def normalize_cell_def
      clean_def strip_def replace_char_def isspace_def lower_def lower_cp_def EMPTY_TOKENS_def
      u_def)

lemma sheet3_source_info: "row_source_info sheet3 11" "row_source_info sheet3 13"
  by (simp_all add: row_source_info_def SOURCE_COLS_def get_group_None
      COLS_FONTE_TAG_def COLS_FONTE_DESC_def COLS_COMO_BLOQUEAR_def COLS_ONDE_BLOQUEAR_def
      COLS_TIPO_BLOQUEIO_def COLS_COMO_DESBLOQUEAR_def sheet3_def
      normalize_cell_def clean_def strip_def replace_char_def isspace_def lower_def
      lower_cp_def EMPTY_TOKENS_def u_def)

text \<open>
  Claim C1. The footer test of the program is the one of the specification: some marker
  column has a normalised value whose upper case contains a footer keyword. When \<open>r\<close> is
  the first row at or after the start row that passes it, the output is made of the
  records of the rows before \<open>r\<close> (and not beyond the last row of the sheet) that have a
  source field, each built as usual, and of nothing else. When \<open>r\<close> lies within the
  sheet, the output is the same whatever the rows below \<open>r\<close> hold, and whatever else row
  \<open>r\<close> holds.
\<close>

theorem extraction_stops_at_footer:
  assumes "start \<le> r" and "is_footer ws r"
    and "\<forall>r'. start \<le> r' \<and> r' < r \<longrightarrow> \<not> is_footer ws r'"
  shows "(\<forall>q. row_has_footer_marker ws q \<longleftrightarrow> is_footer ws q) \<and>
         process_sheet start ws src =
           map (row_record ws src start)
             (filter (row_source_info ws) [start ..< min r (last_row start ws + 1)]) \<and>
         (\<forall>ws'. r \<le> last_row start ws \<and> r \<le> last_row start ws' \<and> is_footer ws' r \<and>
                (\<forall>c q. q < r \<longrightarrow> cell ws' c q = cell ws c q) \<longrightarrow>
                process_sheet start ws' src = process_sheet start ws src)"
proof (intro conjI allI impI)
  fix q
  show "row_has_footer_marker ws q \<longleftrightarrow> is_footer ws q" by (rule footer_iff)
next
  from assms have f: "row_has_footer_marker ws r"
    and nf: "\<forall>r'. start \<le> r' \<and> r' < r \<longrightarrow> \<not> row_has_footer_marker ws r'"
    by (simp_all add: footer_iff)
  have rows: "data_rows start ws = [start ..< min r (last_row start ws + 1)]"
  proof (cases "r \<le> last_row start ws")
    case True
    with assms(1) f nf have "data_rows start ws = [start ..< r]"
      by (intro data_rows_first_footer)
    with True show ?thesis by (simp add: min_def)
  next
    case False
    with nf have "\<forall>x \<in> set [start ..< last_row start ws + 1]. \<not> row_has_footer_marker ws x"
      by (simp del: upt_Suc)
    then have "data_rows start ws = [start ..< last_row start ws + 1]"
      unfolding data_rows_def by (simp only: takeWhile_eq_all_conv)
    moreover from False have "min r (last_row start ws + 1) = last_row start ws + 1" by simp
    ultimately show ?thesis by (simp only:)
  qed
  then show "process_sheet start ws src =
           map (row_record ws src start)
             (filter (row_source_info ws) [start ..< min r (last_row start ws + 1)])"
    by (simp only: process_sheet_eq record_rows_def)
  fix ws'
  assume a: "r \<le> last_row start ws \<and> r \<le> last_row start ws' \<and> is_footer ws' r \<and>
             (\<forall>c q. q < r \<longrightarrow> cell ws' c q = cell ws c q)"
  then have same: "cell ws' c q = cell ws c q" if "q < r" for c q using that by blast
  from a have f': "row_has_footer_marker ws' r" by (simp add: footer_iff)
  from a rows have eq: "process_sheet start ws src =
           map (row_record ws src start) (filter (row_source_info ws) [start ..< r])"
    by (simp add: process_sheet_eq record_rows_def min_def)
  have "\<forall>r'. start \<le> r' \<and> r' < r \<longrightarrow> \<not> row_has_footer_marker ws' r'"
  proof (intro allI impI)
    fix r'
    assume r': "start \<le> r' \<and> r' < r"
    then have "row_has_footer_marker ws' r' = row_has_footer_marker ws r'"
      by (intro footer_cong same) simp
    with r' nf show "\<not> row_has_footer_marker ws' r'" by blast
  qed
  with assms(1) a f' have "data_rows start ws' = [start ..< r]"
    by (intro data_rows_first_footer) blast+
  then have "process_sheet start ws' src =
           map (row_record ws' src start) (filter (row_source_info ws') [start ..< r])"
    by (simp add: process_sheet_eq record_rows_def)
  also have "filter (row_source_info ws') [start ..< r] = filter (row_source_info ws) [start ..< r]"
    by (intro filter_cong refl row_source_info_cong same) simp
  also have "map (row_record ws' src start) (filter (row_source_info ws) [start ..< r]) =
             map (row_record ws src start) (filter (row_source_info ws) [start ..< r])"
  proof (intro map_cong refl row_record_cong same)
    fix x c q
    assume "x \<in> set (filter (row_source_info ws) [start ..< r])" and "q \<le> x"
    then show "q < r" by simp
  qed
  finally show "process_sheet start ws' src = process_sheet start ws src" by (simp add: eq)
qed

theorem extraction_stops_at_footer_witness:
  "(11::nat) \<le> 16 \<and> 16 \<le> last_row 11 sheet1 \<and> is_footer sheet1 16 \<and>
   row_has_footer_marker sheet1 16 \<and>
   \<not> is_footer sheet1 11 \<and> \<not> is_footer sheet1 12 \<and> \<not> is_footer sheet1 13 \<and>
   \<not> is_footer sheet1 14 \<and> \<not> is_footer sheet1 15 \<and>
   17 \<le> last_row 11 sheet1 \<and> row_source_info sheet1 17 \<and>
   process_sheet 11 sheet1 (u ''a.xlsx'') =
     [row_record sheet1 (u ''a.xlsx'') 11 11, row_record sheet1 (u ''a.xlsx'') 11 13,
      row_record sheet1 (u ''a.xlsx'') 11 15] \<and>
   process_sheet 11 (sheet1\<lparr>max_row := 16\<rparr>) (u ''a.xlsx'') =
     process_sheet 11 sheet1 (u ''a.xlsx'') \<and>
   (11::nat) \<le> 12 \<and> \<not> is_footer sheet3 11 \<and> is_footer sheet3 12 \<and>
   row_has_footer_marker sheet3 12 \<and>
   13 \<le> last_row 11 sheet3 \<and> row_source_info sheet3 13 \<and>
   process_sheet 11 sheet3 (u ''b.xlsx'') = [row_record sheet3 (u ''b.xlsx'') 11 11]"
proof -
  have l: "last_row 11 sheet1 = 17" by (simp add: last_row_def sheet1_def)
  have l': "last_row 11 (sheet1\<lparr>max_row := 16\<rparr>) = 16" by (simp add: last_row_def)
  have l3: "last_row 11 sheet3 = 13" by (simp add: last_row_def sheet3_def)
  have f1: "is_footer sheet1 16" "\<not> is_footer sheet1 11" "\<not> is_footer sheet1 12"
    "\<not> is_footer sheet1 13" "\<not> is_footer sheet1 14" "\<not> is_footer sheet1 15"
    using sheet1_footer by (simp_all add: footer_iff)
  have f3: "\<not> is_footer sheet3 11" "is_footer sheet3 12"
    using sheet3_footer by (simp_all add: footer_iff)
  have none: "\<forall>r'. 11 \<le> r' \<and> r' < 16 \<longrightarrow> \<not> is_footer sheet1 r'"
  proof (intro allI impI)
    fix r' :: nat
    assume "11 \<le> r' \<and> r' < 16"
    then have "r' = 11 \<or> r' = 12 \<or> r' = 13 \<or> r' = 14 \<or> r' = 15" by arith
    then show "\<not> is_footer sheet1 r'" using f1 by blast
  qed
  have none3: "\<forall>r'. 11 \<le> r' \<and> r' < 12 \<longrightarrow> \<not> is_footer sheet3 r'"
  proof (intro allI impI)
    fix r' :: nat
    assume "11 \<le> r' \<and> r' < 12"
    then have "r' = 11" by arith
    then show "\<not> is_footer sheet3 r'" using f3 by blast
  qed
  have rows: "[11 ..< 16] = [11, 12, 13, 14, 15::nat]" by (simp add: upt_rec)
  have rows3: "[11 ..< 12] = [11::nat]" by (simp add: upt_rec)
  have le: "(11::nat) \<le> 16" and le3: "(11::nat) \<le> 12" by simp_all
  note inst = extraction_stops_at_footer [of 11 16 sheet1 "u ''a.xlsx''", OF le f1(1) none]
  note inst3 = extraction_stops_at_footer [of 11 12 sheet3 "u ''b.xlsx''", OF le3 f3(2) none3]
  have f: "is_footer (sheet1\<lparr>max_row := 16\<rparr>) 16"
    using sheet1_footer(1) footer_cong [of "sheet1\<lparr>max_row := 16\<rparr>" 16 sheet1]
    by (simp add: footer_iff)
  from inst have m1: "row_has_footer_marker sheet1 16 \<longleftrightarrow> is_footer sheet1 16" by blast
  from inst3 have m3: "row_has_footer_marker sheet3 12 \<longleftrightarrow> is_footer sheet3 12" by blast
  from inst have "process_sheet 11 sheet1 (u ''a.xlsx'') =
      map (row_record sheet1 (u ''a.xlsx'') 11) (filter (row_source_info sheet1) [11 ..< 16])"
    by (simp add: l)
  then have p: "process_sheet 11 sheet1 (u ''a.xlsx'') =
     [row_record sheet1 (u ''a.xlsx'') 11 11, row_record sheet1 (u ''a.xlsx'') 11 13,
      row_record sheet1 (u ''a.xlsx'') 11 15]"
    by (simp only: rows) (simp add: sheet1_source_info)
  from inst3 have "process_sheet 11 sheet3 (u ''b.xlsx'') =
      map (row_record sheet3 (u ''b.xlsx'') 11) (filter (row_source_info sheet3) [11 ..< 12])"
    by (simp add: l3)
  then have p3: "process_sheet 11 sheet3 (u ''b.xlsx'') = [row_record sheet3 (u ''b.xlsx'') 11 11]"
    by (simp only: rows3) (simp add: sheet3_source_info)
  from inst have "16 \<le> last_row 11 sheet1 \<and> 16 \<le> last_row 11 (sheet1\<lparr>max_row := 16\<rparr>) \<and>
        is_footer (sheet1\<lparr>max_row := 16\<rparr>) 16 \<and>
        (\<forall>c q. q < 16 \<longrightarrow> cell (sheet1\<lparr>max_row := 16\<rparr>) c q = cell sheet1 c q) \<longrightarrow>
        process_sheet 11 (sheet1\<lparr>max_row := 16\<rparr>) (u ''a.xlsx'') =
          process_sheet 11 sheet1 (u ''a.xlsx'')"
    by blast
  with l l' f have q: "process_sheet 11 (sheet1\<lparr>max_row := 16\<rparr>) (u ''a.xlsx'') =
          process_sheet 11 sheet1 (u ''a.xlsx'')"
    by simp
  show ?thesis using f1 f3 m1 m3 sheet1_source_info sheet3_source_info l l3 p p3 q by simp
qed

lemma record_rows_sorted: "sorted_wrt (<) (record_rows start ws)"
  unfolding record_rows_def by (intro sorted_wrt_filter data_rows_sorted)

lemma record_rows_range:
  "r \<in> set (record_rows start ws) \<Longrightarrow> start \<le> r \<and> r \<le> last_row start ws"
  by (auto simp: record_rows_def dest: data_rows_range)

lemma record_rows_distinct: "distinct (record_rows start ws)"
  using record_rows_sorted [of start ws] by (simp add: strict_sorted_iff)

lemma sheet1_data_rows: "data_rows 11 sheet1 = [11, 12, 13, 14, 15]"
proof -
  have "\<forall>r'. 11 \<le> r' \<and> r' < 16 \<longrightarrow> \<not> row_has_footer_marker sheet1 r'"
  proof (intro allI impI)
    fix r' :: nat
    assume "11 \<le> r' \<and> r' < 16"
    then have "r' = 11 \<or> r' = 12 \<or> r' = 13 \<or> r' = 14 \<or> r' = 15" by arith
    then show "\<not> row_has_footer_marker sheet1 r'" using sheet1_footer by blast
  qed
  moreover have "16 \<le> last_row 11 sheet1" by (simp add: last_row_def sheet1_def)
  ultimately have "data_rows 11 sheet1 = [11 ..< 16]"
    using sheet1_footer(1) by (intro data_rows_first_footer) simp_all
  then show ?thesis by (simp add: upt_rec)
qed

lemma sheet1_record_rows: "record_rows 11 sheet1 = [11, 13, 15]"
  by (simp add: record_rows_def sheet1_data_rows sheet1_source_info)

text \<open>
  Claim C4. The output is the list of the records of the rows that give one, in the order
  of those rows, which is strictly ascending and lies between the start row and the last
  row.
\<close>

theorem records_in_row_order:
  "process_sheet start ws src = map (row_record ws src start) (record_rows start ws) \<and>
   sorted_wrt (<) (record_rows start ws) \<and>
   set (record_rows start ws) \<subseteq> {start .. last_row start ws}"
  using record_rows_range [of _ start ws]
  by (auto simp: process_sheet_eq record_rows_sorted)

theorem records_in_row_order_witness:
  "record_rows 11 sheet1 = [11, 13, 15] \<and>
   process_sheet 11 sheet1 (u ''a.xlsx'') =
     [row_record sheet1 (u ''a.xlsx'') 11 11, row_record sheet1 (u ''a.xlsx'') 11 13,
      row_record sheet1 (u ''a.xlsx'') 11 15]"
  using records_in_row_order [of 11 sheet1 "u ''a.xlsx''"] by (simp add: sheet1_record_rows)

text \<open>
  Claim C2. The output holds one record for each visited row that has a source field, and
  none for the others: a visited row gives a record if and only if one of the six source
  fields of its candidate record is not absent, every record of the output has such a
  field, and a row whose six source groups are all absent gives no record, whatever its
  equipment tag and description.
\<close>

theorem kept_iff_source_field:
  "process_sheet start ws src = map (row_record ws src start) (record_rows start ws) \<and>
   distinct (record_rows start ws) \<and>
   (\<forall>rec \<in> set (process_sheet start ws src). has_source_info rec) \<and>
   (\<forall>r \<in> set (data_rows start ws).
      r \<in> set (record_rows start ws) \<longleftrightarrow>
        (tag_da_fonte_de_energia (row_record ws src start r) \<noteq> None \<or>
         descricao_da_fonte_de_energia (row_record ws src start r) \<noteq> None \<or>
         como_bloquear (row_record ws src start r) \<noteq> None \<or>
         onde_bloquear_tag (row_record ws src start r) \<noteq> None \<or>
         tipo_de_bloqueio (row_record ws src start r) \<noteq> None \<or>
         como_desbloquear (row_record ws src start r) \<noteq> None)) \<and>
   (\<forall>r. (\<forall>cols \<in> set SOURCE_COLS. get_group ws r cols default_sep = None) \<longrightarrow>
      r \<notin> set (record_rows start ws))"
proof (intro conjI ballI allI impI)
  show "process_sheet start ws src = map (row_record ws src start) (record_rows start ws)"
    by (rule process_sheet_eq)
  show "distinct (record_rows start ws)" by (rule record_rows_distinct)
next
  fix rec
  assume "rec \<in> set (process_sheet start ws src)"
  then obtain r where "rec = row_record ws src start r" and "row_source_info ws r"
    by (auto simp: process_sheet_eq record_rows_def)
  then show "has_source_info rec" by (simp add: has_source_info_row_record)
next
  fix r
  assume "r \<in> set (data_rows start ws)"
  then have "r \<in> set (record_rows start ws) \<longleftrightarrow> has_source_info (row_record ws src start r)"
    by (simp add: record_rows_def has_source_info_row_record)
  then show "r \<in> set (record_rows start ws) \<longleftrightarrow>
        (tag_da_fonte_de_energia (row_record ws src start r) \<noteq> None \<or>
         descricao_da_fonte_de_energia (row_record ws src start r) \<noteq> None \<or>
         como_bloquear (row_record ws src start r) \<noteq> None \<or>
         onde_bloquear_tag (row_record ws src start r) \<noteq> None \<or>
         tipo_de_bloqueio (row_record ws src start r) \<noteq> None \<or>
         como_desbloquear (row_record ws src start r) \<noteq> None)"
    by (simp add: has_source_info_def)
next
  fix r
  assume "\<forall>cols \<in> set SOURCE_COLS. get_group ws r cols default_sep = None"
  then have "\<not> row_source_info ws r" by (simp add: row_source_info_def list_ex_iff)
  then show "r \<notin> set (record_rows start ws)" by (simp add: record_rows_def)
qed

lemmas cols_defs = COLS_EQUIP_TAG_def COLS_EQUIP_DESC_def COLS_FONTE_TAG_def
  COLS_FONTE_DESC_def COLS_COMO_BLOQUEAR_def COLS_ONDE_BLOQUEAR_def COLS_TIPO_BLOQUEIO_def
  COLS_COMO_DESBLOQUEAR_def

theorem kept_iff_source_field_witness:
  "12 \<in> set (data_rows 11 sheet1) \<and>
   get_group sheet1 12 COLS_EQUIP_DESC default_sep = Some (u ''Pump'') \<and>
   get_group sheet1 12 COLS_FONTE_TAG default_sep = None \<and>
   get_group sheet1 12 COLS_FONTE_DESC default_sep = None \<and>
   get_group sheet1 12 COLS_COMO_BLOQUEAR default_sep = None \<and>
   get_group sheet1 12 COLS_ONDE_BLOQUEAR default_sep = None \<and>
   get_group sheet1 12 COLS_TIPO_BLOQUEIO default_sep = None \<and>
   get_group sheet1 12 COLS_COMO_DESBLOQUEAR default_sep = None \<and>
   12 \<notin> set (record_rows 11 sheet1) \<and>
   11 \<in> set (data_rows 11 sheet1) \<and>
   como_bloquear (row_record sheet1 (u ''a.xlsx'') 11 11) = Some (u ''Valve A'') \<and>
   11 \<in> set (record_rows 11 sheet1) \<and>
   row_record sheet1 (u ''a.xlsx'') 11 11 \<in> set (process_sheet 11 sheet1 (u ''a.xlsx'')) \<and>
   has_source_info (row_record sheet1 (u ''a.xlsx'') 11 11)"
proof -
  note inst = kept_iff_source_field [of 11 sheet1 "u ''a.xlsx''"]
  have d: "12 \<in> set (data_rows 11 sheet1)" "11 \<in> set (data_rows 11 sheet1)"
    by (simp_all add: sheet1_data_rows)
  have p: "get_group sheet1 12 COLS_EQUIP_DESC default_sep = Some (u ''Pump'')"
    by (simp add: get_group_unfold cols_defs default_sep_def eval_defs)
  have n: "\<forall>cols \<in> set SOURCE_COLS. get_group sheet1 12 cols default_sep = None"
    by (simp add: SOURCE_COLS_def get_group_None cols_defs eval_defs)
  have v: "como_bloquear (row_record sheet1 (u ''a.xlsx'') 11 11) = Some (u ''Valve A'')"
    by (simp add: row_record_def get_group_unfold cols_defs default_sep_def eval_defs)
  from inst n have a: "12 \<notin> set (record_rows 11 sheet1)" by blast
  from inst d(2) v have b: "11 \<in> set (record_rows 11 sheet1)" by blast
  with inst have c: "row_record sheet1 (u ''a.xlsx'') 11 11 \<in> set (process_sheet 11 sheet1 (u ''a.xlsx''))"
    by simp
  with inst have "has_source_info (row_record sheet1 (u ''a.xlsx'') 11 11)" by blast
  with a b c d p v n show ?thesis by (simp add: SOURCE_COLS_def)
qed

text \<open>
  Claim C3. The fill-down step returns and stores a value that is not absent, and returns
  the stored value for an absent one; so the updates absent, X, absent, absent give
  absent, X, X, X. In the output, the equipment tag and description of the record of a
  row are the most recent values at or above that row: the row's own value when it has
  one, else the value of the nearest earlier row (from the start row on) that has one,
  else absent.
\<close>

theorem fill_down_inherits:
  "fill_down (Some x) l = (Some x, Some x) \<and> fill_down None l = (l, l) \<and>
   run_updates None [None, Some x, None, None] = [None, Some x, Some x, Some x] \<and>
   length (process_sheet start ws src) = length (record_rows start ws) \<and>
   (\<forall>i < length (record_rows start ws).
      tag_do_equipamento (process_sheet start ws src ! i) =
        most_recent ws COLS_EQUIP_TAG start (record_rows start ws ! i) \<and>
      descricao_do_equipamento (process_sheet start ws src ! i) =
        most_recent ws COLS_EQUIP_DESC start (record_rows start ws ! i)) \<and>
   (get_group ws r cols default_sep = Some x \<longrightarrow> most_recent ws cols start r = Some x) \<and>
   (start \<le> r' \<and> r' \<le> r \<and> get_group ws r' cols default_sep = Some x \<and>
    (\<forall>q. r' < q \<and> q \<le> r \<longrightarrow> get_group ws q cols default_sep = None) \<longrightarrow>
      most_recent ws cols start r = Some x) \<and>
   (start \<le> r \<and> (\<forall>q. start \<le> q \<and> q \<le> r \<longrightarrow> get_group ws q cols default_sep = None) \<longrightarrow>
      most_recent ws cols start r = None)"
proof (intro conjI allI impI)
  show "fill_down (Some x) l = (Some x, Some x)" and "fill_down None l = (l, l)"
    by (simp_all add: fill_down_def)
  show "run_updates None [None, Some x, None, None] = [None, Some x, Some x, Some x]"
    by (simp add: fill_down_def)
  show "length (process_sheet start ws src) = length (record_rows start ws)"
    by (simp add: process_sheet_eq)
next
  fix i
  assume "i < length (record_rows start ws)"
  then have "process_sheet start ws src ! i = row_record ws src start (record_rows start ws ! i)"
    by (simp add: process_sheet_eq)
  then show "tag_do_equipamento (process_sheet start ws src ! i) =
        most_recent ws COLS_EQUIP_TAG start (record_rows start ws ! i)"
    and "descricao_do_equipamento (process_sheet start ws src ! i) =
        most_recent ws COLS_EQUIP_DESC start (record_rows start ws ! i)"
    by (simp_all add: row_record_def)
next
  assume "get_group ws r cols default_sep = Some x"
  then show "most_recent ws cols start r = Some x" by (rule most_recent_here)
next
  assume "start \<le> r' \<and> r' \<le> r \<and> get_group ws r' cols default_sep = Some x \<and>
    (\<forall>q. r' < q \<and> q \<le> r \<longrightarrow> get_group ws q cols default_sep = None)"
  then show "most_recent ws cols start r = Some x"
    using most_recent_inherited [of start r' r ws cols x] by blast
next
  assume "start \<le> r \<and> (\<forall>q. start \<le> q \<and> q \<le> r \<longrightarrow> get_group ws q cols default_sep = None)"
  then show "most_recent ws cols start r = None"
    using most_recent_never [of start r ws cols] by blast
qed

lemma sheet1_equip:
  "get_group sheet1 11 COLS_EQUIP_TAG default_sep = Some (u ''EQ-1'')"
  "get_group sheet1 12 COLS_EQUIP_TAG default_sep = None"
  "get_group sheet1 13 COLS_EQUIP_TAG default_sep = None"
  "get_group sheet1 11 COLS_EQUIP_DESC default_sep = None"
  "get_group sheet1 12 COLS_EQUIP_DESC default_sep = Some (u ''Pump'')"
  "get_group sheet1 13 COLS_EQUIP_DESC default_sep = None"
  "get_group sheet1 15 COLS_EQUIP_TAG default_sep = Some (u ''EQ-2'')"
  by (simp_all add: get_group_unfold cols_defs default_sep_def eval_defs)

theorem fill_down_inherits_witness:
  "(1::nat) < length (record_rows 11 sheet1) \<and> record_rows 11 sheet1 ! 1 = 13 \<and>
   get_group sheet1 13 COLS_EQUIP_TAG default_sep = None \<and>
   get_group sheet1 12 COLS_EQUIP_TAG default_sep = None \<and>
   get_group sheet1 11 COLS_EQUIP_TAG default_sep = Some (u ''EQ-1'') \<and>
   tag_do_equipamento (process_sheet 11 sheet1 (u ''a.xlsx'') ! 1) = Some (u ''EQ-1'') \<and>
   get_group sheet1 13 COLS_EQUIP_DESC default_sep = None \<and>
   get_group sheet1 12 COLS_EQUIP_DESC default_sep = Some (u ''Pump'') \<and>
   descricao_do_equipamento (process_sheet 11 sheet1 (u ''a.xlsx'') ! 1) = Some (u ''Pump'') \<and>
   tag_do_equipamento (process_sheet 11 sheet1 (u ''a.xlsx'') ! 0) = Some (u ''EQ-1'') \<and>
   descricao_do_equipamento (process_sheet 11 sheet1 (u ''a.xlsx'') ! 0) = None \<and>
   tag_do_equipamento (process_sheet 11 sheet1 (u ''a.xlsx'') ! 2) = Some (u ''EQ-2'')"
proof -
  note rows = sheet1_record_rows
  have t13: "most_recent sheet1 COLS_EQUIP_TAG 11 13 = Some (u ''EQ-1'')"
  proof -
    have "\<forall>q. 11 < q \<and> q \<le> 13 \<longrightarrow> get_group sheet1 q COLS_EQUIP_TAG default_sep = None"
    proof (intro allI impI)
      fix q :: nat
      assume "11 < q \<and> q \<le> 13"
      then have "q = 12 \<or> q = 13" by arith
      then show "get_group sheet1 q COLS_EQUIP_TAG default_sep = None"
        using sheet1_equip by blast
    qed
    with fill_down_inherits [where start = 11 and ws = sheet1 and r = 13 and cols = COLS_EQUIP_TAG
        and x = "u ''EQ-1''" and r' = 11] sheet1_equip(1)
    show ?thesis by simp
  qed
  have d13: "most_recent sheet1 COLS_EQUIP_DESC 11 13 = Some (u ''Pump'')"
  proof -
    have "\<forall>q. 12 < q \<and> q \<le> 13 \<longrightarrow> get_group sheet1 q COLS_EQUIP_DESC default_sep = None"
    proof (intro allI impI)
      fix q :: nat
      assume "12 < q \<and> q \<le> 13"
      then have "q = 13" by arith
      then show "get_group sheet1 q COLS_EQUIP_DESC default_sep = None"
        using sheet1_equip by blast
    qed
    with fill_down_inherits [where start = 11 and ws = sheet1 and r = 13 and cols = COLS_EQUIP_DESC
        and x = "u ''Pump''" and r' = 12] sheet1_equip(5)
    show ?thesis by simp
  qed
  have t11: "most_recent sheet1 COLS_EQUIP_TAG 11 11 = Some (u ''EQ-1'')"
    using fill_down_inherits [where start = 11 and ws = sheet1 and r = 11 and cols = COLS_EQUIP_TAG
        and x = "u ''EQ-1''"] sheet1_equip(1)
    by blast
  have d11: "most_recent sheet1 COLS_EQUIP_DESC 11 11 = None"
  proof -
    have "\<forall>q. 11 \<le> q \<and> q \<le> 11 \<longrightarrow> get_group sheet1 q COLS_EQUIP_DESC default_sep = None"
    proof (intro allI impI)
      fix q :: nat
      assume "11 \<le> q \<and> q \<le> 11"
      then have "q = 11" by arith
      then show "get_group sheet1 q COLS_EQUIP_DESC default_sep = None"
        using sheet1_equip by blast
    qed
    with fill_down_inherits [where start = 11 and ws = sheet1 and r = 11 and cols = COLS_EQUIP_DESC] show ?thesis by simp
  qed
  have t15: "most_recent sheet1 COLS_EQUIP_TAG 11 15 = Some (u ''EQ-2'')"
    using fill_down_inherits [where start = 11 and ws = sheet1 and r = 15 and cols = COLS_EQUIP_TAG
        and x = "u ''EQ-2''"] sheet1_equip(7)
    by blast
  note inst = fill_down_inherits [where start = 11 and ws = sheet1 and src = "u ''a.xlsx''"]
  from inst have all: "\<forall>i < length (record_rows 11 sheet1).
      tag_do_equipamento (process_sheet 11 sheet1 (u ''a.xlsx'') ! i) =
        most_recent sheet1 COLS_EQUIP_TAG 11 (record_rows 11 sheet1 ! i) \<and>
      descricao_do_equipamento (process_sheet 11 sheet1 (u ''a.xlsx'') ! i) =
        most_recent sheet1 COLS_EQUIP_DESC 11 (record_rows 11 sheet1 ! i)"
    by blast
  have "tag_do_equipamento (process_sheet 11 sheet1 (u ''a.xlsx'') ! 1) = Some (u ''EQ-1'')"
    and "descricao_do_equipamento (process_sheet 11 sheet1 (u ''a.xlsx'') ! 1) = Some (u ''Pump'')"
    using all [rule_format, of 1] by (simp_all add: rows t13 d13)
  moreover have "tag_do_equipamento (process_sheet 11 sheet1 (u ''a.xlsx'') ! 0) = Some (u ''EQ-1'')"
    and "descricao_do_equipamento (process_sheet 11 sheet1 (u ''a.xlsx'') ! 0) = None"
    using all [rule_format, of 0] by (simp_all add: rows t11 d11)
  moreover have "tag_do_equipamento (process_sheet 11 sheet1 (u ''a.xlsx'') ! 2) = Some (u ''EQ-2'')"
    using all [rule_format, of 2] by (simp add: rows t15)
  ultimately show ?thesis using sheet1_equip by (simp add: rows)
qed

section \<open>The shape of the values\<close>

lemma normalize_value: "normalize_cell v = Some s \<Longrightarrow> well_shaped s \<and> \<not> is_sentinel s"
proof -
  assume a: "normalize_cell v = Some s"
  then have "s = clean (to_text v)" and "s \<noteq> []" and "lower s \<notin> EMPTY_TOKENS"
    by (auto simp: normalize_cell_Some)
  then show ?thesis using well_shaped_clean [of "to_text v"] by (simp add: is_sentinel_lower)
qed

lemma get_group_value:
  "get_group ws r cols default_sep = Some s \<Longrightarrow> well_shaped s \<and> \<not> is_sentinel s"
  unfolding get_group_def by (blast dest: well_shaped_join_valid join_valid_not_sentinel)

lemma field_value_origin:
  assumes "Some t \<in> set (field_values (row_record ws src start r))"
  shows "\<exists>q cols. get_group ws q cols default_sep = Some t"
proof -
  from assms consider
      "most_recent ws COLS_EQUIP_TAG start r = Some t"
    | "most_recent ws COLS_EQUIP_DESC start r = Some t"
    | cols where "get_group ws r cols default_sep = Some t"
    by (auto simp: field_values_def row_record_def)
  then show ?thesis
  proof cases
    case 1
    then show ?thesis by (blast dest: most_recent_origin)
  next
    case 2
    then show ?thesis by (blast dest: most_recent_origin)
  next
    case 3
    then show ?thesis by blast
  qed
qed

lemma sheet1_tag_13: "most_recent sheet1 COLS_EQUIP_TAG 11 13 = Some (u ''EQ-1'')"
proof -
  have "\<forall>q. 11 < q \<and> q \<le> 13 \<longrightarrow> get_group sheet1 q COLS_EQUIP_TAG default_sep = None"
  proof (intro allI impI)
    fix q :: nat
    assume "11 < q \<and> q \<le> 13"
    then have "q = 12 \<or> q = 13" by arith
    then show "get_group sheet1 q COLS_EQUIP_TAG default_sep = None"
      using sheet1_equip by blast
  qed
  then show ?thesis
    using sheet1_equip(1) by (intro most_recent_inherited [of 11 11]) simp_all
qed

text \<open>
  Claim C10, as amended. Every string that \<open>normalize_cell\<close> returns is well shaped (not
  empty, no line feed or carriage return, no white space at either end, no two white
  space characters in a row) and is not a sentinel up to letter case. Every string that
  \<open>join_valid\<close> returns, with any separator, is well shaped; with the separator of the
  program, one space, it is not a sentinel either. So it is for \<open>get_group\<close> with that
  separator, and for each of the eight fields of each record of the output.
\<close>

theorem values_well_shaped:
  "(normalize_cell v = Some s \<longrightarrow> well_shaped s \<and> \<not> is_sentinel s) \<and>
   (join_valid vals sep = Some s \<longrightarrow> well_shaped s) \<and>
   (join_valid vals default_sep = Some s \<longrightarrow> \<not> is_sentinel s) \<and>
   (get_group ws r cols default_sep = Some s \<longrightarrow> well_shaped s \<and> \<not> is_sentinel s) \<and>
   (\<forall>rec \<in> set (process_sheet start ws src). \<forall>t.
      Some t \<in> set (field_values rec) \<longrightarrow> well_shaped t \<and> \<not> is_sentinel t)"
proof (intro conjI ballI allI impI)
  fix rec t
  assume "rec \<in> set (process_sheet start ws src)" and t: "Some t \<in> set (field_values rec)"
  then obtain q where "rec = row_record ws src start q" by (auto simp: process_sheet_eq)
  with t obtain q' cols' where g: "get_group ws q' cols' default_sep = Some t"
    by (blast dest: field_value_origin)
  from g show "well_shaped t" by (blast dest: get_group_value)
  from g show "\<not> is_sentinel t" by (blast dest: get_group_value)
qed (blast dest: normalize_value well_shaped_join_valid join_valid_not_sentinel get_group_value)+

text \<open>
  Claim C10, as stated, fails for \<open>join_valid\<close> with another separator: the values
  \<^verbatim>\<open>n\<close> and \<^verbatim>\<open>a\<close> joined with a slash give the sentinel \<^verbatim>\<open>n/a\<close>.
\<close>

theorem joined_value_sentinel_counterexample:
  "join_valid [CStr (u ''n''), CStr (u ''a'')] (u ''/'') = Some (u ''n/a'') \<and>
   is_sentinel (u ''n/a'')"
proof -
  have "join_valid [CStr (u ''n''), CStr (u ''a'')] (u ''/'') = Some (u ''n/a'')"
    by (simp add: join_valid_eq eval_defs)
  moreover have "lower (u ''n/a'') \<in> EMPTY_TOKENS"
    by (simp add: lower_def lower_cp_def EMPTY_TOKENS_def u_def)
  ultimately show ?thesis by (simp add: is_sentinel_lower)
qed

theorem values_well_shaped_witness:
  "normalize_cell (CStr (u '' Valve   A '')) = Some (u ''Valve A'') \<and>
   well_shaped (u ''Valve A'') \<and> \<not> is_sentinel (u ''Valve A'') \<and>
   join_valid [CStr (u ''n''), CStr (u ''a'')] (u ''/'') = Some (u ''n/a'') \<and>
   well_shaped (u ''n/a'') \<and>
   join_valid [CStr (u ''n''), CStr (u ''a'')] default_sep = Some (u ''n a'') \<and>
   \<not> is_sentinel (u ''n a'') \<and>
   get_group sheet1 15 COLS_FONTE_DESC default_sep = Some (u ''Rede'') \<and>
   well_shaped (u ''Rede'') \<and> \<not> is_sentinel (u ''Rede'') \<and>
   row_record sheet1 (u ''a.xlsx'') 11 13 \<in> set (process_sheet 11 sheet1 (u ''a.xlsx'')) \<and>
   Some (u ''EQ-1'') \<in> set (field_values (row_record sheet1 (u ''a.xlsx'') 11 13)) \<and>
   well_shaped (u ''EQ-1'') \<and> \<not> is_sentinel (u ''EQ-1'')"
proof -
  have n: "normalize_cell (CStr (u '' Valve   A '')) = Some (u ''Valve A'')"
    by (simp add: eval_defs)
  have j1: "join_valid [CStr (u ''n''), CStr (u ''a'')] (u ''/'') = Some (u ''n/a'')"
    by (simp add: join_valid_eq eval_defs)
  have j2: "join_valid [CStr (u ''n''), CStr (u ''a'')] default_sep = Some (u ''n a'')"
    by (simp add: join_valid_eq default_sep_def eval_defs)
  have g: "get_group sheet1 15 COLS_FONTE_DESC default_sep = Some (u ''Rede'')"
    by (simp add: get_group_unfold cols_defs default_sep_def eval_defs)
  have m: "row_record sheet1 (u ''a.xlsx'') 11 13 \<in> set (process_sheet 11 sheet1 (u ''a.xlsx''))"
    by (simp add: process_sheet_eq sheet1_record_rows)
  from sheet1_tag_13 have f: "Some (u ''EQ-1'') \<in> set (field_values (row_record sheet1 (u ''a.xlsx'') 11 13))"
    by (simp add: field_values_def row_record_def)
  from values_well_shaped [of "CStr (u '' Valve   A '')" "u ''Valve A''"] n
  have "well_shaped (u ''Valve A'') \<and> \<not> is_sentinel (u ''Valve A'')" by blast
  moreover from values_well_shaped [where vals = "[CStr (u ''n''), CStr (u ''a'')]"
      and sep = "u ''/''" and s = "u ''n/a''"] j1
  have "well_shaped (u ''n/a'')" by blast
  moreover from values_well_shaped [where vals = "[CStr (u ''n''), CStr (u ''a'')]"
      and s = "u ''n a''"] j2
  have "\<not> is_sentinel (u ''n a'')" by blast
  moreover from values_well_shaped [where ws = sheet1 and r = 15 and cols = COLS_FONTE_DESC
      and s = "u ''Rede''"] g
  have "well_shaped (u ''Rede'') \<and> \<not> is_sentinel (u ''Rede'')" by blast
  moreover from values_well_shaped [where ws = sheet1 and start = 11 and src = "u ''a.xlsx''"] m f
  have "well_shaped (u ''EQ-1'') \<and> \<not> is_sentinel (u ''EQ-1'')" by blast
  ultimately show ?thesis using n j1 j2 g m f by blast
qed

section \<open>The batch\<close>

lemma main_loop_step:
  "main_loop conv load (f # fs) st w =
     main_loop conv load fs
       (case fst (file_outcome conv load f w) of
          Inl e \<Rightarrow> record_failure f e
            (if lower (suffix f) = u ''.xls'' \<and> (\<exists>p. fst (conv f w) = Inr p)
             then st\<lparr>converted := converted st + 1\<rparr> else st)
        | Inr recs \<Rightarrow> record_success recs
            (if lower (suffix f) = u ''.xls'' then st\<lparr>converted := converted st + 1\<rparr> else st))
       (snd (file_outcome conv load f w))"
  by (auto simp: file_outcome_def Let_def split: prod.splits sum.splits)

lemma main_loop_outcomes:
  "all_records (fst (main_loop conv load fs st w)) =
     all_records st @ records_of (outcomes conv load fs w) \<and>
   failed (fst (main_loop conv load fs st w)) =
     failed st @ failures_of (outcomes conv load fs w) \<and>
   processed (fst (main_loop conv load fs st w)) =
     processed st + successes_of (outcomes conv load fs w)"
proof (induction fs arbitrary: st w)
  case Nil
  show ?case by (simp add: records_of_def failures_of_def successes_of_def)
next
  case (Cons f fs)
  let ?o = "fst (file_outcome conv load f w)"
  let ?w = "snd (file_outcome conv load f w)"
  obtain st' where step: "main_loop conv load (f # fs) st w = main_loop conv load fs st' ?w"
    and recs: "all_records st' = all_records st @ (case ?o of Inl e \<Rightarrow> [] | Inr recs \<Rightarrow> recs)"
    and fails: "failed st' =
      failed st @ (case ?o of Inl e \<Rightarrow> [(name f, error_text e)] | Inr recs \<Rightarrow> [])"
    and count: "processed st' = processed st + (case ?o of Inl e \<Rightarrow> 0 | Inr recs \<Rightarrow> 1)"
    using main_loop_step [of conv load f fs st w]
    by (cases ?o) (simp_all add: record_failure_def record_success_def)
  from Cons.IH [of st' ?w] recs fails count show ?case
    unfolding step
    by (cases ?o) (simp_all add: records_of_def failures_of_def successes_of_def)
qed

lemma outcomes_files: "map fst (outcomes conv load fs w) = fs"
  by (induction fs arbitrary: w) simp_all

lemma outcomes_count:
  "successes_of os + length (failures_of os) = length os"
proof (induction os)
  case Nil
  show ?case by (simp add: successes_of_def failures_of_def)
next
  case (Cons x os)
  obtain f res where x: "x = (f, res)" by (cases x)
  from Cons show ?case
    by (cases res) (simp_all add: x successes_of_def failures_of_def)
qed

text \<open>
  Claim C9. Every file of the batch is processed, in order, whatever happens to the files
  before it. A file that fails adds the pair of its name and its error text to the
  failures and no record; a file that succeeds adds its records and is counted. So the
  consolidated records are the records of the files that succeeded, in the order of the
  files, and with three files of which the second fails two are counted as processed,
  one failure is recorded, and the records are those of the first file followed by those
  of the third.
\<close>

theorem failed_file_does_not_stop_batch:
  "map fst (outcomes conv load files w) = files \<and>
   all_records (fst (main_loop conv load files initial_state w)) =
     records_of (outcomes conv load files w) \<and>
   failed (fst (main_loop conv load files initial_state w)) =
     failures_of (outcomes conv load files w) \<and>
   processed (fst (main_loop conv load files initial_state w)) =
     successes_of (outcomes conv load files w) \<and>
   processed (fst (main_loop conv load files initial_state w)) +
     length (failed (fst (main_loop conv load files initial_state w))) = length files \<and>
   (outcomes conv load files w = [(f1, Inr r1), (f2, Inl e), (f3, Inr r3)] \<longrightarrow>
      processed (fst (main_loop conv load files initial_state w)) = 2 \<and>
      failed (fst (main_loop conv load files initial_state w)) = [(name f2, error_text e)] \<and>
      all_records (fst (main_loop conv load files initial_state w)) = r1 @ r3)"
proof -
  let ?st = "fst (main_loop conv load files initial_state w)"
  let ?os = "outcomes conv load files w"
  from main_loop_outcomes [of conv load files initial_state w]
  have a: "all_records ?st = records_of ?os" and b: "failed ?st = failures_of ?os"
    and c: "processed ?st = successes_of ?os"
    by (simp_all add: initial_state_def)
  have d: "map fst ?os = files" by (rule outcomes_files)
  then have "length ?os = length files" by (metis length_map)
  with outcomes_count [of ?os] have n: "processed ?st + length (failed ?st) = length files"
    by (simp add: b c)
  have "processed ?st = 2 \<and> failed ?st = [(name f2, error_text e)] \<and> all_records ?st = r1 @ r3"
    if "?os = [(f1, Inr r1), (f2, Inl e), (f3, Inr r3)]"
    using that by (simp add: a b c records_of_def failures_of_def successes_of_def)
  with a b c d n show ?thesis by blast
qed

theorem failed_file_does_not_stop_batch_witness:
  "outcomes example_convert example_load [file_a, file_b, file_c] () =
     [(file_a, Inr (process_sheet START_ROW sheet1 (u ''a.xlsx''))),
      (file_b, Inl (Error (u ''File is not a zip file''))),
      (file_c, Inr (process_sheet START_ROW sheet1 (u ''c.XLS'')))] \<and>
   processed (fst (main_loop example_convert example_load [file_a, file_b, file_c]
     initial_state ())) = 2 \<and>
   failed (fst (main_loop example_convert example_load [file_a, file_b, file_c]
     initial_state ())) = [(u ''b.xlsx'', u ''File is not a zip file'')] \<and>
   all_records (fst (main_loop example_convert example_load [file_a, file_b, file_c]
     initial_state ())) =
     process_sheet START_ROW sheet1 (u ''a.xlsx'') @ process_sheet START_ROW sheet1 (u ''c.XLS'')"
proof -
  have o: "outcomes example_convert example_load [file_a, file_b, file_c] () =
     [(file_a, Inr (process_sheet START_ROW sheet1 (u ''a.xlsx''))),
      (file_b, Inl (Error (u ''File is not a zip file''))),
      (file_c, Inr (process_sheet START_ROW sheet1 (u ''c.XLS'')))]"
    by (simp add: file_outcome_def process_workbook_def example_convert_def example_load_def
        file_a_def file_b_def file_c_def lower_def lower_cp_def u_def)
  have nb: "name file_b = u ''b.xlsx''" by (simp add: file_b_def)
  from o failed_file_does_not_stop_batch [of example_convert example_load
      "[file_a, file_b, file_c]" "()" file_a "process_sheet START_ROW sheet1 (u ''a.xlsx'')"
      file_b "Error (u ''File is not a zip file'')" file_c
      "process_sheet START_ROW sheet1 (u ''c.XLS'')"]
  have "processed (fst (main_loop example_convert example_load [file_a, file_b, file_c]
          initial_state ())) = 2 \<and>
        failed (fst (main_loop example_convert example_load [file_a, file_b, file_c]
          initial_state ())) =
          [(name file_b, error_text (Error (u ''File is not a zip file'')))] \<and>
        all_records (fst (main_loop example_convert example_load [file_a, file_b, file_c]
          initial_state ())) =
          process_sheet START_ROW sheet1 (u ''a.xlsx'') @
          process_sheet START_ROW sheet1 (u ''c.XLS'')"
    by blast
  with o show ?thesis by (simp only: nb error_text.simps simp_thms)
qed

end
